theory Spec2Isabelle
  imports Main "HOL-Library.Sublist" "HOL-Library.Word"
begin

section \<open>The selection tree (src/frontend/types.ts, src/unnamed/part_000)\<close>

text \<open>
  \<^verbatim>\<open>FileNode\<close> of types.ts (lines 5 to 13). The optional fields \<^verbatim>\<open>children?\<close> and \<^verbatim>\<open>error?\<close> are
  options: \<open>None\<close> is an absent (undefined) field. An empty array is a present field,
  \<open>Some []\<close>, and is truthy in JavaScript.
\<close>

datatype kind = Folder | File | Binary

datatype FileNode =
  FileNode (name: string) (path: string) (rel_path: string) (type: kind) (checked: bool)
    (children: "FileNode list option") (error: "string option")

text \<open>
  \<^verbatim>\<open>updateRecursive\<close>, the closure inside \<^verbatim>\<open>updateNodeChecked\<close> (part_000, lines 15 to
  19): the spread copies
  every field, \<^verbatim>\<open>checked\<close> is overwritten, and a truthy \<^verbatim>\<open>children\<close> is mapped.
\<close>

fun updateRecursive :: "FileNode \<Rightarrow> bool \<Rightarrow> FileNode" where
  "updateRecursive (FileNode nm p rp ty ck ch er) checked' =
     FileNode nm p rp ty checked'
       (case ch of
          Some cs \<Rightarrow> Some (map (\<lambda>c. updateRecursive c checked') cs)
        | None \<Rightarrow> None)
       er"

text \<open>
  \<^verbatim>\<open>updateNodeChecked\<close> (part_000, lines 13 to 31): a node whose path is the target is rewritten with its whole
  subtree; otherwise the children (when present) are mapped; a node without children is
  returned as it is.
\<close>

fun updateNodeChecked :: "FileNode \<Rightarrow> string \<Rightarrow> bool \<Rightarrow> FileNode" where
  "updateNodeChecked (FileNode nm p rp ty ck ch er) targetPath newChecked =
     (if p = targetPath then updateRecursive (FileNode nm p rp ty ck ch er) newChecked
      else (case ch of
              Some cs \<Rightarrow>
                FileNode nm p rp ty ck
                  (Some (map (\<lambda>child. updateNodeChecked child targetPath newChecked) cs)) er
            | None \<Rightarrow> FileNode nm p rp ty ck ch er))"

text \<open>
  \<^verbatim>\<open>extractCheckedFiles\<close> (part_000, lines 34 to 45): the node's own \<^verbatim>\<open>rel_path\<close> when it is a checked file, then
  the loop \<^verbatim>\<open>forEach(child => { files = files.concat(extractCheckedFiles(child)) })\<close>,
  a left fold over the children in array order.
\<close>

fun extractCheckedFiles :: "FileNode \<Rightarrow> string list" where
  "extractCheckedFiles (FileNode nm p rp ty ck ch er) =
     (let files = (if ty = File \<and> ck then [rp] else [])
      in case ch of
           Some cs \<Rightarrow> foldl (\<lambda>files child. files @ extractCheckedFiles child) files cs
         | None \<Rightarrow> files)"

subsection \<open>Vocabulary of the specification\<close>

text \<open>
  The nodes of a tree in depth-first order, a node before its children and the children
  in array order. This follows the words of the specification, not the code.
\<close>

fun preorder :: "FileNode \<Rightarrow> FileNode list" where
  "preorder (FileNode nm p rp ty ck ch er) =
     FileNode nm p rp ty ck ch er #
       (case ch of Some cs \<Rightarrow> concat (map preorder cs) | None \<Rightarrow> [])"

text \<open>
  A position is the list of child indices leading from the root to a node;
  \<open>subtree_at t pos\<close> is the node of \<open>t\<close> at that position, if there is one.
\<close>

fun subtree_at :: "FileNode \<Rightarrow> nat list \<Rightarrow> FileNode option" where
  "subtree_at t [] = Some t"
| "subtree_at t (i # pos) =
     (case children t of
        Some cs \<Rightarrow> if i < length cs then subtree_at (cs ! i) pos else None
      | None \<Rightarrow> None)"

text \<open>
  \<open>covered t p pos\<close>: some node on the way from the root of \<open>t\<close> down to position
  \<open>pos\<close>, the node at \<open>pos\<close> included, has path \<open>p\<close>. So the node at \<open>pos\<close> is a node
  with path \<open>p\<close> or a descendant of one.
\<close>

definition covered :: "FileNode \<Rightarrow> string \<Rightarrow> nat list \<Rightarrow> bool" where
  "covered t p pos =
     (\<exists>pre \<in> set (prefixes pos).
        case subtree_at t pre of Some m \<Rightarrow> path m = p | None \<Rightarrow> False)"

text \<open>The fields of a node other than \<^verbatim>\<open>checked\<close> and the contents of \<^verbatim>\<open>children\<close>.\<close>

definition same_fields :: "FileNode \<Rightarrow> FileNode \<Rightarrow> bool" where
  "same_fields a b =
     (name a = name b \<and> path a = path b \<and> rel_path a = rel_path b \<and> type a = type b \<and>
      error a = error b \<and> map_option length (children a) = map_option length (children b))"

section \<open>The API client (src/frontend/services/api.ts)\<close>

text \<open>
  A JavaScript error value: its \<^verbatim>\<open>name\<close> and \<^verbatim>\<open>message\<close>. String concatenation with
  an error uses \<^verbatim>\<open>Error.prototype.toString\<close>.
\<close>

datatype js_error = JsError (err_name: string) (message: string)

definition toString :: "js_error \<Rightarrow> string" where
  "toString e =
     (if err_name e = [] then message e
      else if message e = [] then err_name e
      else err_name e @ '': '' @ message e)"

text \<open>
  What one \<^verbatim>\<open>fetch\<close> round trip gives the client: the fetch rejects, or it resolves with
  a response, of which the client reads the \<^verbatim>\<open>ok\<close> flag and \<^verbatim>\<open>res.json()\<close>; the latter
  rejects (\<open>Inl\<close>) or yields the parsed body (\<open>Inr\<close>). A promise's outcome is likewise
  \<open>Inl\<close> for a rejection and \<open>Inr\<close> for the resolved value.
\<close>

datatype 'b http_response = FetchRejected js_error | Response bool "js_error + 'b"

text \<open>
  The text of the path input goes through \<^verbatim>\<open>trim\<close>, which reads single characters, so it
  is held as JavaScript holds it: a sequence of UTF-16 code units. \<open>utf16 s\<close> is the
  JavaScript string of an ASCII literal. The other strings are only copied and compared.
\<close>

type_synonym js_string = "16 word list"

definition utf16 :: "string \<Rightarrow> js_string" where
  "utf16 s = map of_char s"

text \<open>The requests the client sends, with the arguments that go into URL and body.\<close>

datatype request =
    GetIngestStatus
  | GetInspectionFrames
  | PostScan js_string
  | PostIngestExecute string js_string "string list" string

text \<open>\<^verbatim>\<open>IngestStatus\<close> of types.ts. The number fields are only stored, never computed on.\<close>

record IngestStatus =
  is_running :: bool
  current_file :: string
  progress_percent :: int
  processed_files :: int
  total_files :: int
  log :: "string list"

text \<open>\<^verbatim>\<open>api.getIngestStatus\<close>: the \<^verbatim>\<open>ok\<close> flag is not looked at.\<close>

definition getIngestStatus :: "IngestStatus http_response \<Rightarrow> js_error + IngestStatus" where
  "getIngestStatus r = (case r of FetchRejected e \<Rightarrow> Inl e | Response ok body \<Rightarrow> body)"

text \<open>
  \<^verbatim>\<open>api.getInspectionFrames\<close>: a response that is not ok gives \<^verbatim>\<open>{ frames: [] }\<close>. The
  body is the \<^verbatim>\<open>frames\<close> field of the parsed object, \<open>None\<close> when the object has none.
  The client never looks inside a frame, so the frame type is a parameter.
\<close>

definition getInspectionFrames :: "'f list option http_response \<Rightarrow> js_error + 'f list option" where
  "getInspectionFrames r =
     (case r of
        FetchRejected e \<Rightarrow> Inl e
      | Response ok body \<Rightarrow> if \<not> ok then Inr (Some []) else body)"

text \<open>
  \<^verbatim>\<open>api.scanPath\<close>: the body is the \<^verbatim>\<open>tree\<close> field of the parsed \<^verbatim>\<open>TreeResponse\<close>.
\<close>

definition scanPath :: "FileNode option http_response \<Rightarrow> js_error + FileNode option" where
  "scanPath r =
     (case r of
        FetchRejected e \<Rightarrow> Inl e
      | Response ok body \<Rightarrow> if \<not> ok then Inl (JsError ''Error'' ''Scan failed'') else body)"

text \<open>
  \<^verbatim>\<open>api.executeIngest\<close>: the body is the \<^verbatim>\<open>detail\<close> field of the parsed object (read only
  when the response is not ok); \<^verbatim>\<open>err.detail || 'Ingest failed'\<close> takes the default for an
  absent or empty detail.
\<close>

definition executeIngest :: "string option http_response \<Rightarrow> js_error + unit" where
  "executeIngest r =
     (case r of
        FetchRejected e \<Rightarrow> Inl e
      | Response ok body \<Rightarrow>
          if \<not> ok then
            (case body of
               Inl e \<Rightarrow> Inl e
             | Inr detail \<Rightarrow>
                 Inl (JsError ''Error''
                        (case detail of
                           Some d \<Rightarrow> if d = [] then ''Ingest failed'' else d
                         | None \<Rightarrow> ''Ingest failed'')))
          else (case body of Inl e \<Rightarrow> Inl e | Inr _ \<Rightarrow> Inr ()))"

section \<open>The runtime: timers, network log, dialogs\<close>

text \<open>
  The browser and React are not part of the repository. They are modelled by their
  documented contracts, over a discrete clock in milliseconds:
  \<^item> \<^verbatim>\<open>setInterval(f, ms)\<close> registers a timer under a handle never used before, first due
    \<open>ms\<close> after the call; \<^verbatim>\<open>clearInterval\<close> removes it; a timer's callback runs only
    while the timer is registered, never before it is due, and is then due again \<open>ms\<close>
    later;
  \<^item> an effect runs after mount, its cleanup followed by the effect runs after a render
    in which a dependency changed, and its cleanup runs at unmount;
  \<^item> an event handler, its state updates and the render they cause are one atomic step.
\<close>

datatype callback = StatusPoll | TelemetryPull nat

record timer =
  timer_id :: nat
  callback :: callback
  delay :: nat
  due :: nat

text \<open>
  One mounted \<^verbatim>\<open>ThoughtStream\<close>: its \<^verbatim>\<open>frames\<close> state, the value of the dependency
  \<^verbatim>\<open>[isRunning]\<close> at the last run of the polling effect, and the interval handle that the
  effect's cleanup closes over (\<open>None\<close> when the effect returned early, without a cleanup).
\<close>

record 'f thought_stream =
  inst_id :: nat
  frames :: "'f list"
  isRunning_dep :: bool
  interval :: "nat option"

text \<open>
  The runtime, then the prop and the state hooks of a mounted \<^verbatim>\<open>IngestView\<close> (with the
  handle of its status polling effect), then its \<^verbatim>\<open>ThoughtStream\<close> child when rendered.
\<close>

record 'f world =
  clock :: nat
  timers :: "timer list"
  next_timer :: nat
  requests :: "request list"
  alerts :: "string list"
  console :: "(string \<times> js_error) list"
  activeDB :: "string option"
  targetPath :: js_string
  sourceType :: string
  tree :: "FileNode option"
  loadingScan :: bool
  llmModel :: string
  status :: IngestStatus
  isConsoleExpanded :: bool
  showInspector :: bool
  poll_interval :: nat
  thoughtStream :: "'f thought_stream option"
  next_instance :: nat

definition setInterval :: "callback \<Rightarrow> nat \<Rightarrow> 'f world \<Rightarrow> nat \<times> 'f world" where
  "setInterval cb ms w =
     (next_timer w,
      w\<lparr>timers := timers w @ [\<lparr>timer_id = next_timer w, callback = cb, delay = ms,
                                 due = clock w + ms\<rparr>],
        next_timer := Suc (next_timer w)\<rparr>)"

definition clearInterval :: "nat \<Rightarrow> 'f world \<Rightarrow> 'f world" where
  "clearInterval i w = w\<lparr>timers := filter (\<lambda>t. timer_id t \<noteq> i) (timers w)\<rparr>"

definition alert :: "string \<Rightarrow> 'f world \<Rightarrow> 'f world" where
  "alert msg w = w\<lparr>alerts := alerts w @ [msg]\<rparr>"

definition console_error :: "string \<Rightarrow> js_error \<Rightarrow> 'f world \<Rightarrow> 'f world" where
  "console_error msg e w = w\<lparr>console := console w @ [(msg, e)]\<rparr>"

definition fetch :: "request \<Rightarrow> 'f world \<Rightarrow> 'f world" where
  "fetch rq w = w\<lparr>requests := requests w @ [rq]\<rparr>"

text \<open>
  \<^verbatim>\<open>String.prototype.trim\<close> strips, at both ends, the code units that ECMAScript calls
  WhiteSpace (U+0009, U+000B, U+000C, U+FEFF and the space separators U+0020, U+00A0,
  U+1680, U+2000 to U+200A, U+202F, U+205F, U+3000) or LineTerminator (U+000A, U+000D,
  U+2028, U+2029). Each is one UTF-16 code unit.
\<close>

definition is_white_space :: "16 word \<Rightarrow> bool" where
  "is_white_space c =
     (c \<in> set [0x0009, 0x000A, 0x000B, 0x000C, 0x000D, 0x0020, 0x00A0, 0x1680, 0x2028,
                0x2029, 0x202F, 0x205F, 0x3000, 0xFEFF] \<or>
      (0x2000 \<le> c \<and> c \<le> 0x200A))"

definition trim :: "js_string \<Rightarrow> js_string" where
  "trim s = rev (dropWhile is_white_space (rev (dropWhile is_white_space s)))"

text \<open>
  \<^verbatim>\<open>Array.prototype.slice(start)\<close> with one argument: a negative start counts from the
  end, and both ends are clamped to the array.
\<close>

definition slice :: "int \<Rightarrow> 'a list \<Rightarrow> 'a list" where
  "slice start xs =
     (let len = int (length xs);
          k = (if start < 0 then max (len + start) 0 else min start len)
      in drop (nat k) xs)"

section \<open>ThoughtStream (src/unnamed/part_001)\<close>

text \<open>
  The polling effect of \<^verbatim>\<open>ThoughtStream\<close> (lines 15 to 30), for the instance \<open>k\<close>: it
  returns early when
  \<^verbatim>\<open>isRunning\<close> is false, and otherwise only registers the interval; the result is the
  handle its cleanup will clear.
\<close>

definition thoughtStream_effect :: "nat \<Rightarrow> bool \<Rightarrow> 'f world \<Rightarrow> nat option \<times> 'f world" where
  "thoughtStream_effect k isRunning w =
     (if \<not> isRunning then (None, w)
      else (let (i, w') = setInterval (TelemetryPull k) 800 w in (Some i, w')))"

definition thoughtStream_cleanup :: "nat option \<Rightarrow> 'f world \<Rightarrow> 'f world" where
  "thoughtStream_cleanup h w = (case h of Some i \<Rightarrow> clearInterval i w | None \<Rightarrow> w)"

text \<open>
  The interval callback (lines 18 to 27) up to its \<^verbatim>\<open>await\<close>: the request is sent. The rest of the
  callback runs when the round trip ends, on its outcome \<open>r\<close>: frames are stored only for
  a truthy, non-empty \<^verbatim>\<open>data.frames\<close>; the \<^verbatim>\<open>catch\<close> block is empty. A state update of
  an instance that is no longer mounted does nothing.
\<close>

definition pull_begin :: "'f world \<Rightarrow> 'f world" where
  "pull_begin w = fetch GetInspectionFrames w"

definition setFrames :: "nat \<Rightarrow> ('f list \<Rightarrow> 'f list) \<Rightarrow> 'f world \<Rightarrow> 'f world" where
  "setFrames k upd w =
     (case thoughtStream w of
        Some ts \<Rightarrow>
          if inst_id ts = k then w\<lparr>thoughtStream := Some (ts\<lparr>frames := upd (frames ts)\<rparr>)\<rparr>
          else w
      | None \<Rightarrow> w)"

definition pull_done :: "nat \<Rightarrow> 'f list option http_response \<Rightarrow> 'f world \<Rightarrow> 'f world" where
  "pull_done k r w =
     (case getInspectionFrames r of
        Inl e \<Rightarrow> w
      | Inr data \<Rightarrow>
          (case data of
             Some fs \<Rightarrow>
               if length fs > 0 then setFrames k (\<lambda>prev. slice (- 50) (prev @ fs)) w else w
           | None \<Rightarrow> w))"

section \<open>IngestView (src/unnamed/part_000)\<close>

text \<open>The state hooks' initial values (lines 48 to 62), before any effect has run.\<close>

definition initial_world :: "string option \<Rightarrow> 'f world" where
  "initial_world db =
     \<lparr>clock = 0, timers = [], next_timer = 0, requests = [], alerts = [], console = [],
      activeDB = db, targetPath = [], sourceType = ''folder'', tree = None,
      loadingScan = False, llmModel = ''none'',
      status = \<lparr>is_running = False, current_file = [], progress_percent = 0,
                processed_files = 0, total_files = 0, log = []\<rparr>,
      isConsoleExpanded = False, showInspector = True, poll_interval = 0,
      thoughtStream = None, next_instance = 0\<rparr>"

text \<open>
  \<^verbatim>\<open>poll\<close> of the status polling effect (lines 67 to 90), split at its \<^verbatim>\<open>await\<close>, and
  the effect itself: one call of \<^verbatim>\<open>poll\<close>, then the interval. Its cleanup runs when the
  view is unmounted; the events below are those of a mounted view.
\<close>

definition poll_begin :: "'f world \<Rightarrow> 'f world" where
  "poll_begin w = fetch GetIngestStatus w"

definition poll_done :: "IngestStatus http_response \<Rightarrow> 'f world \<Rightarrow> 'f world" where
  "poll_done r w =
     (case getIngestStatus r of
        Inr s \<Rightarrow> w\<lparr>status := s\<rparr>
      | Inl e \<Rightarrow> console_error ''Polling failed'' e w)"

definition status_effect :: "'f world \<Rightarrow> 'f world" where
  "status_effect w =
     (let w1 = poll_begin w;
          (i, w2) = setInterval StatusPoll 1000 w1
      in w2\<lparr>poll_interval := i\<rparr>)"

definition status_cleanup :: "'f world \<Rightarrow> 'f world" where
  "status_cleanup w = clearInterval (poll_interval w) w"

text \<open>\<^verbatim>\<open>handleScan\<close> (lines 99 to 112), split at its \<^verbatim>\<open>await\<close>.\<close>

definition handleScan_begin :: "'f world \<Rightarrow> 'f world" where
  "handleScan_begin w =
     (let path' = (if trim (targetPath w) = [] then utf16 ''.'' else trim (targetPath w))
      in fetch (PostScan path') (w\<lparr>loadingScan := True\<rparr>))"

definition handleScan_done :: "FileNode option http_response \<Rightarrow> 'f world \<Rightarrow> 'f world" where
  "handleScan_done r w =
     (let w' = (case scanPath r of
                  Inr res_tree \<Rightarrow>
                    (case res_tree of Some t \<Rightarrow> w\<lparr>tree := Some t\<rparr> | None \<Rightarrow> w)
                | Inl e \<Rightarrow> alert (''Scan failed: '' @ toString e) w)
      in w'\<lparr>loadingScan := False\<rparr>)"

text \<open>\<^verbatim>\<open>handleToggleCheck\<close> (lines 114 to 118).\<close>

definition handleToggleCheck :: "FileNode \<Rightarrow> bool \<Rightarrow> 'f world \<Rightarrow> 'f world" where
  "handleToggleCheck node isChecked w =
     (case tree w of
        Some t \<Rightarrow> w\<lparr>tree := Some (updateNodeChecked t (path node) isChecked)\<rparr>
      | None \<Rightarrow> w)"

text \<open>
  \<^verbatim>\<open>handleStartIngest\<close> (lines 120 to 139), split at its \<^verbatim>\<open>await\<close>. The first part
  returns whether the request was sent. \<^verbatim>\<open>!activeDB\<close> holds for \<^verbatim>\<open>null\<close> and for the empty string.
\<close>

definition handleStartIngest_begin :: "'f world \<Rightarrow> bool \<times> 'f world" where
  "handleStartIngest_begin w =
     (case activeDB w of
        None \<Rightarrow> (False, alert ''Please select a Knowledge Base first!'' w)
      | Some db \<Rightarrow>
          if db = [] then (False, alert ''Please select a Knowledge Base first!'' w)
          else
            (case tree w of
               None \<Rightarrow> (False, w)
             | Some t \<Rightarrow>
                 (let files = extractCheckedFiles t in
                  if length files = 0 then (False, w)
                  else
                    (let path' = (if trim (targetPath w) = [] then utf16 ''.''
                                  else trim (targetPath w))
                     in (True, fetch (PostIngestExecute db path' files (llmModel w)) w)))))"

definition handleStartIngest_done :: "string option http_response \<Rightarrow> 'f world \<Rightarrow> 'f world" where
  "handleStartIngest_done r w =
     (case executeIngest r of
        Inr _ \<Rightarrow> w\<lparr>showInspector := True\<rparr>
      | Inl e \<Rightarrow> alert (''Ingest Error: '' @ message e) w)"

text \<open>One whole call of \<^verbatim>\<open>handleStartIngest\<close> whose round trip, if any, ends in \<open>r\<close>.\<close>

definition handleStartIngest :: "string option http_response \<Rightarrow> 'f world \<Rightarrow> 'f world" where
  "handleStartIngest r w =
     (let (sent, w') = handleStartIngest_begin w
      in if sent then handleStartIngest_done r w' else w')"

text \<open>\<^verbatim>\<open>selectedFilesCount\<close> and \<^verbatim>\<open>isStartDisabled\<close> (lines 141 to 145).\<close>

definition selectedFilesCount :: "'f world \<Rightarrow> nat" where
  "selectedFilesCount w =
     (case tree w of Some t \<Rightarrow> length (extractCheckedFiles t) | None \<Rightarrow> 0)"

definition isStartDisabled :: "'f world \<Rightarrow> bool" where
  "isStartDisabled w =
     (tree w = None \<or> selectedFilesCount w = 0 \<or> is_running (status w) \<or>
      activeDB w = None \<or> activeDB w = Some [])"

section \<open>Rendering and events\<close>

text \<open>
  What a render of \<^verbatim>\<open>IngestView\<close> commits for the line
  \<^verbatim>\<open>{showInspector && <ThoughtStream isRunning={status.is_running} />}\<close>: the child is
  mounted (fresh state, effect run), updated (cleanup and effect when \<^verbatim>\<open>isRunning\<close>
  changed), or unmounted (cleanup).
\<close>

definition commit :: "'f world \<Rightarrow> 'f world" where
  "commit w =
     (if showInspector w then
        (case thoughtStream w of
           None \<Rightarrow>
             (let k = next_instance w;
                  (h, w') = thoughtStream_effect k (is_running (status w)) w
              in w'\<lparr>thoughtStream :=
                      Some \<lparr>inst_id = k, frames = [],
                            isRunning_dep = is_running (status w), interval = h\<rparr>,
                    next_instance := Suc k\<rparr>)
         | Some ts \<Rightarrow>
             if isRunning_dep ts = is_running (status w) then w
             else
               (let w1 = thoughtStream_cleanup (interval ts) w;
                    (h, w2) = thoughtStream_effect (inst_id ts) (is_running (status w)) w1
                in w2\<lparr>thoughtStream :=
                        Some (ts\<lparr>isRunning_dep := is_running (status w), interval := h\<rparr>)\<rparr>))
      else
        (case thoughtStream w of
           None \<Rightarrow> w
         | Some ts \<Rightarrow> (thoughtStream_cleanup (interval ts) w)\<lparr>thoughtStream := None\<rparr>))"

text \<open>
  Mounting \<^verbatim>\<open>IngestView\<close>: the first render, the child's effects, then its own status
  polling effect.
\<close>

definition mountIngestView :: "string option \<Rightarrow> 'f world" where
  "mountIngestView db = status_effect (commit (initial_world db))"

text \<open>
  A timer fires: nothing happens unless the timer is registered and due; otherwise it is
  re-armed and its callback runs up to the \<^verbatim>\<open>await\<close>.
\<close>

definition fire :: "nat \<Rightarrow> 'f world \<Rightarrow> 'f world" where
  "fire i w =
     (case find (\<lambda>t. timer_id t = i) (timers w) of
        None \<Rightarrow> w
      | Some t \<Rightarrow>
          if clock w < due t then w
          else
            (let w' = w\<lparr>timers := map (\<lambda>u. if timer_id u = i
                                              then u\<lparr>due := clock w + delay u\<rparr> else u)
                                      (timers w)\<rparr>
             in case callback t of
                  StatusPoll \<Rightarrow> poll_begin w'
                | TelemetryPull k \<Rightarrow> pull_begin w'))"

text \<open>
  What can happen to a mounted \<^verbatim>\<open>IngestView\<close>: time passes, a timer fires, a round trip
  ends, the user acts. A click on a disabled button does nothing.
\<close>

datatype 'f event =
    Advance nat
  | Fire nat
  | StatusResponse "IngestStatus http_response"
  | FramesResponse nat "'f list option http_response"
  | ClickScan
  | ScanResponse "FileNode option http_response"
  | ToggleCheck FileNode bool
  | ClickStart
  | IngestResponse "string option http_response"
  | ClickInspector
  | ClickConsole
  | SetTargetPath js_string
  | SetSourceType string
  | SetLlmModel string

fun handle :: "'f event \<Rightarrow> 'f world \<Rightarrow> 'f world" where
  "handle (Advance n) w = w\<lparr>clock := clock w + n\<rparr>"
| "handle (Fire i) w = fire i w"
| "handle (StatusResponse r) w = poll_done r w"
| "handle (FramesResponse k r) w = pull_done k r w"
| "handle ClickScan w = (if loadingScan w then w else handleScan_begin w)"
| "handle (ScanResponse r) w = handleScan_done r w"
| "handle (ToggleCheck node isChecked) w = handleToggleCheck node isChecked w"
| "handle ClickStart w = (if isStartDisabled w then w else snd (handleStartIngest_begin w))"
| "handle (IngestResponse r) w = handleStartIngest_done r w"
| "handle ClickInspector w = w\<lparr>showInspector := \<not> showInspector w\<rparr>"
| "handle ClickConsole w = w\<lparr>isConsoleExpanded := \<not> isConsoleExpanded w\<rparr>"
| "handle (SetTargetPath s) w = w\<lparr>targetPath := s\<rparr>"
| "handle (SetSourceType s) w = w\<lparr>sourceType := s\<rparr>"
| "handle (SetLlmModel s) w = w\<lparr>llmModel := s\<rparr>"

definition step :: "'f event \<Rightarrow> 'f world \<Rightarrow> 'f world" where
  "step e w = commit (handle e w)"

definition run :: "'f event list \<Rightarrow> 'f world \<Rightarrow> 'f world" where
  "run evs w = foldl (\<lambda>w e. step e w) w evs"

subsection \<open>Observations\<close>

text \<open>The number of telemetry pulls sent so far, and the live telemetry timers.\<close>

definition telemetry_pulls :: "'f world \<Rightarrow> nat" where
  "telemetry_pulls w = length (filter (\<lambda>rq. rq = GetInspectionFrames) (requests w))"

definition telemetry_timers :: "'f world \<Rightarrow> timer list" where
  "telemetry_timers w = filter (\<lambda>t. callback t \<noteq> StatusPoll) (timers w)"

text \<open>The handle of the running telemetry puller, if there is one.\<close>

definition telemetry_handle :: "'f world \<Rightarrow> nat option" where
  "telemetry_handle w = (case thoughtStream w of Some ts \<Rightarrow> interval ts | None \<Rightarrow> None)"



text \<open>
  A telemetry round trip that fails: no response, a response that is not ok, or a body
  that does not parse.
\<close>

definition pull_failed :: "'f list option http_response \<Rightarrow> bool" where
  "pull_failed r =
     (case r of FetchRejected e \<Rightarrow> True | Response ok body \<Rightarrow> \<not> ok \<or> isl body)"

subsection \<open>Invariants of the timer table\<close>

text \<open>
  Every registered timer is owned: it is the status poller's (under the handle the status
  effect stored, period 1000) or the mounted \<^verbatim>\<open>ThoughtStream\<close>'s (under the handle its
  cleanup holds, period 800). Handles are distinct and below the next fresh one, the
  status poller's timer is registered, and the frame buffer holds at most 50 frames.
\<close>

definition coherent_parts ::
  "timer list \<Rightarrow> nat \<Rightarrow> nat \<Rightarrow> 'f thought_stream option \<Rightarrow> nat \<Rightarrow> bool" where
  "coherent_parts tms nt pi tso ni =
     ((\<forall>t \<in> set tms.
         timer_id t < nt \<and>
         ((callback t = StatusPoll \<and> timer_id t = pi \<and> delay t = 1000) \<or>
          (\<exists>ts. tso = Some ts \<and> interval ts = Some (timer_id t) \<and>
                callback t = TelemetryPull (inst_id ts) \<and> delay t = 800))) \<and>
      distinct (map timer_id tms) \<and>
      pi \<in> timer_id ` set tms \<and>
      (\<forall>ts. tso = Some ts \<longrightarrow>
         inst_id ts < ni \<and> length (frames ts) \<le> 50 \<and>
         (interval ts = None \<longrightarrow> \<not> isRunning_dep ts) \<and>
         (\<forall>i. interval ts = Some i \<longrightarrow>
            isRunning_dep ts \<and> i \<in> timer_id ` set tms \<and> i \<noteq> pi)))"

definition coherent :: "'f world \<Rightarrow> bool" where
  "coherent w =
     coherent_parts (timers w) (next_timer w) (poll_interval w) (thoughtStream w)
       (next_instance w)"

text \<open>
  The child is rendered as the last render asked: mounted exactly when \<^verbatim>\<open>showInspector\<close>
  holds, its effect run for the current \<^verbatim>\<open>status.is_running\<close>.
\<close>

definition synced :: "'f world \<Rightarrow> bool" where
  "synced w =
     ((thoughtStream w = None \<longrightarrow> \<not> showInspector w) \<and>
      (\<forall>ts. thoughtStream w = Some ts \<longrightarrow>
         showInspector w \<and> isRunning_dep ts = is_running (status w)))"

definition stable :: "'f world \<Rightarrow> bool" where
  "stable w = (coherent w \<and> synced w)"

text \<open>No telemetry timer is due before time \<open>T\<close>.\<close>

definition quiet_until :: "nat \<Rightarrow> 'f world \<Rightarrow> bool" where
  "quiet_until T w = (\<forall>t \<in> set (timers w). callback t \<noteq> StatusPoll \<longrightarrow> T \<le> due t)"

subsection \<open>Example inputs\<close>

text \<open>
  The tree of the specification's scenario: a checked root folder holding the file
  \<^verbatim>\<open>a.py\<close> and the folder \<^verbatim>\<open>subdir\<close>, which holds the file \<^verbatim>\<open>b.py\<close>.
\<close>

definition scenario_tree :: FileNode where
  "scenario_tree =
     FileNode ''root'' ''/r'' ''.'' Folder True
       (Some [FileNode ''a.py'' ''/r/a.py'' ''a.py'' File True None None,
              FileNode ''subdir'' ''/r/subdir'' ''subdir'' Folder True
                (Some [FileNode ''b.py'' ''/r/subdir/b.py'' ''subdir/b.py'' File True None
                         None])
                None])
       None"

definition running_status :: IngestStatus where
  "running_status =
     \<lparr>is_running = True, current_file = ''a.py'', progress_percent = 50,
      processed_files = 1, total_files = 2, log = [''Processing a.py'']\<rparr>"

definition idle_status :: IngestStatus where
  "idle_status =
     \<lparr>is_running = False, current_file = [], progress_percent = 100,
      processed_files = 2, total_files = 2, log = [''Done'']\<rparr>"

text \<open>
  A mounted view; the view after a scan that returned the scenario tree; the same after
  the root was unchecked; after a job start that the server accepted; and while the
  status poll reports a running job.
\<close>

definition mounted_world :: "nat world" where
  "mounted_world = mountIngestView (Some ''kb'')"

definition scanned_world :: "nat world" where
  "scanned_world =
     run [ClickScan, ScanResponse (Response True (Inr (Some scenario_tree)))] mounted_world"

definition deselected_world :: "nat world" where
  "deselected_world = run [ToggleCheck scenario_tree False] scanned_world"

definition started_world :: "nat world" where
  "started_world =
     run [ClickStart, IngestResponse (Response True (Inr None))] scanned_world"

definition running_world :: "nat world" where
  "running_world = run [StatusResponse (Response True (Inr running_status))] mounted_world"

definition submitted_world :: "nat world" where
  "submitted_world = run [ClickStart] scanned_world"

text \<open>
  The running view four seconds later, after the status poll reported the job idle; and a
  mounted view whose inspector pane was hidden.
\<close>

definition paused_world :: "nat world" where
  "paused_world =
     run [Advance 4000, StatusResponse (Response True (Inr idle_status))] running_world"

definition hidden_world :: "nat world" where
  "hidden_world = run [ClickInspector] mounted_world"



section \<open>The path input\<close>

text \<open>
  \<^verbatim>\<open>trim\<close> on a lone no-break space, on text between an em space and a byte order mark
  with a line feed, and on an ASCII path between blanks.
\<close>

lemma trim_examples:
  "trim [0x00A0] = []"
  "trim [0x2003, 0x61, 0x20, 0x62, 0xFEFF, 0x0A] = [0x61, 0x20, 0x62]"
  "trim (utf16 ''  /srv/data '') = utf16 ''/srv/data''"
  "utf16 ''.'' = [0x2E]"
  by code_simp+

section \<open>Properties of the selection tree\<close>

lemma foldl_append_concat:
  "foldl (\<lambda>acc c. acc @ f c) acc cs = acc @ concat (map f cs)"
  by (induction cs arbitrary: acc) simp_all

lemma extract_preorder:
  "extractCheckedFiles t = map rel_path (filter (\<lambda>n. type n = File \<and> checked n) (preorder t))"
proof (induction t)
  case (FileNode nm p rp ty ck ch er)
  show ?case
  proof (cases ch)
    case None
    then show ?thesis by simp
  next
    case (Some cs)
    have m: "map extractCheckedFiles cs =
          map (\<lambda>c. map rel_path (filter (\<lambda>n. type n = File \<and> checked n) (preorder c))) cs"
      using FileNode Some by (intro map_cong) simp_all
    have "concat (map extractCheckedFiles cs) =
          map rel_path (filter (\<lambda>n. type n = File \<and> checked n) (concat (map preorder cs)))"
      unfolding m by (simp add: map_concat filter_concat comp_def)
    then show ?thesis using Some by (simp add: foldl_append_concat)
  qed
qed

lemma updateRecursive_sel [simp]:
  "name (updateRecursive n v) = name n"
  "path (updateRecursive n v) = path n"
  "rel_path (updateRecursive n v) = rel_path n"
  "type (updateRecursive n v) = type n"
  "checked (updateRecursive n v) = v"
  "error (updateRecursive n v) = error n"
  "children (updateRecursive n v) = map_option (map (\<lambda>c. updateRecursive c v)) (children n)"
  by (cases n; simp split: option.split)+

lemma updateNodeChecked_sel:
  "name (updateNodeChecked n p v) = name n"
  "path (updateNodeChecked n p v) = path n"
  "rel_path (updateNodeChecked n p v) = rel_path n"
  "type (updateNodeChecked n p v) = type n"
  "checked (updateNodeChecked n p v) = (if path n = p then v else checked n)"
  "error (updateNodeChecked n p v) = error n"
  "children (updateNodeChecked n p v) =
     (if path n = p then map_option (map (\<lambda>c. updateRecursive c v)) (children n)
      else map_option (map (\<lambda>c. updateNodeChecked c p v)) (children n))"
  by (cases n; simp split: option.split)+

lemma updateNodeChecked_no_match:
  "p \<notin> path ` set (preorder t) \<Longrightarrow> updateNodeChecked t p v = t"
proof (induction t)
  case (FileNode nm q rp ty ck ch er)
  show ?case
  proof (cases ch)
    case None
    then show ?thesis using FileNode.prems by auto
  next
    case (Some cs)
    have "map (\<lambda>c. updateNodeChecked c p v) cs = cs"
    proof (rule map_idI)
      fix c assume c: "c \<in> set cs"
      then have "p \<notin> path ` set (preorder c)" using FileNode.prems Some by auto
      then show "updateNodeChecked c p v = c" using FileNode.IH c Some by simp
    qed
    then show ?thesis using Some FileNode.prems by auto
  qed
qed

lemma covered_Nil: "covered t p [] = (path t = p)"
  by (simp add: covered_def)

lemma covered_Cons:
  "covered t p (i # pos) =
     (path t = p \<or> (case children t of
                       Some cs \<Rightarrow> i < length cs \<and> covered (cs ! i) p pos
                     | None \<Rightarrow> False))"
  by (cases "children t") (auto simp: covered_def simp del: in_set_prefixes)

lemma subtree_at_updateRecursive:
  "subtree_at (updateRecursive t v) pos = map_option (\<lambda>n. updateRecursive n v) (subtree_at t pos)"
  by (induction pos arbitrary: t) (auto split: option.splits)

lemma subtree_at_updateNodeChecked:
  "subtree_at (updateNodeChecked t p v) pos =
     map_option (\<lambda>n. if covered t p pos then updateRecursive n v else updateNodeChecked n p v)
       (subtree_at t pos)"
proof (induction pos arbitrary: t)
  case Nil
  then show ?case by (cases t) (simp add: covered_Nil)
next
  case (Cons i pos)
  show ?case
  proof (cases "path t = p")
    case True
    then have "updateNodeChecked t p v = updateRecursive t v" by (cases t) simp
    then show ?thesis using True subtree_at_updateRecursive[of t v "i # pos"]
      by (simp add: covered_Cons)
  next
    case False
    then show ?thesis using Cons.IH
      by (auto simp: covered_Cons updateNodeChecked_sel split: option.splits)
  qed
qed

lemma covered_path: "\<not> covered t p pos \<Longrightarrow> subtree_at t pos = Some n \<Longrightarrow> path n \<noteq> p"
  by (auto simp: covered_def split: option.splits)

text \<open>
  Claim C1. For every tree \<open>t\<close>, target path \<open>p\<close> and boolean \<open>v\<close>, the tree
  \<open>updateNodeChecked t p v\<close> has a node at exactly the positions where \<open>t\<close> has one. At
  each such position the node keeps its name, path, relative path, type, error and the
  presence and number of its children; its \<open>checked\<close> flag is \<open>v\<close> when the position is
  that of a node with path \<open>p\<close> or of a descendant of one, whatever it was before, and is
  the old flag otherwise. A subtree that lies outside every node with path \<open>p\<close> and holds
  none is the same subtree afterwards. (An ancestor of a rewritten node necessarily holds
  the rewritten nodes among its children, so "unchanged in all fields" is read as: its own
  fields and the shape of its children.)
\<close>

theorem updateNodeChecked_overwrites_subtree:
  "rel_option (\<lambda>n n'. same_fields n n' \<and> checked n' = (if covered t p pos then v else checked n))
     (subtree_at t pos) (subtree_at (updateNodeChecked t p v) pos)
   \<and> (\<forall>n. subtree_at t pos = Some n \<and> \<not> covered t p pos \<and> p \<notin> path ` set (preorder n)
          \<longrightarrow> subtree_at (updateNodeChecked t p v) pos = Some n)"
proof (intro conjI allI impI)
  show "rel_option (\<lambda>n n'. same_fields n n' \<and> checked n' = (if covered t p pos then v else checked n))
     (subtree_at t pos) (subtree_at (updateNodeChecked t p v) pos)"
  proof (cases "subtree_at t pos")
    case None
    then show ?thesis by (simp add: subtree_at_updateNodeChecked)
  next
    case (Some n)
    then show ?thesis using covered_path[of t p pos n]
      by (simp add: subtree_at_updateNodeChecked same_fields_def updateNodeChecked_sel
          option.map_comp comp_def)
  qed
next
  fix n assume "subtree_at t pos = Some n \<and> \<not> covered t p pos \<and> p \<notin> path ` set (preorder n)"
  then show "subtree_at (updateNodeChecked t p v) pos = Some n"
    by (simp add: subtree_at_updateNodeChecked updateNodeChecked_no_match)
qed

text \<open>
  In the scenario tree, unchecking \<^verbatim>\<open>subdir\<close> unchecks \<^verbatim>\<open>b.py\<close> below it (position 1, 0)
  and leaves \<^verbatim>\<open>a.py\<close> (position 0), which is outside and holds no node of that path.
\<close>

theorem updateNodeChecked_overwrites_subtree_witness:
  "covered scenario_tree ''/r/subdir'' [1, 0] \<and>
   subtree_at scenario_tree [1, 0] =
     Some (FileNode ''b.py'' ''/r/subdir/b.py'' ''subdir/b.py'' File True None None) \<and>
   subtree_at (updateNodeChecked scenario_tree ''/r/subdir'' False) [1, 0] =
     Some (FileNode ''b.py'' ''/r/subdir/b.py'' ''subdir/b.py'' File False None None) \<and>
   \<not> covered scenario_tree ''/r/subdir'' [0] \<and>
   ''/r/subdir'' \<notin> path ` set (preorder (FileNode ''a.py'' ''/r/a.py'' ''a.py'' File True None None)) \<and>
   subtree_at (updateNodeChecked scenario_tree ''/r/subdir'' False) [0] =
     Some (FileNode ''a.py'' ''/r/a.py'' ''a.py'' File True None None)"
proof -
  have c: "covered scenario_tree ''/r/subdir'' [1, 0]"
    by (simp add: covered_Cons covered_Nil scenario_tree_def)
  have b: "subtree_at scenario_tree [1, 0] =
     Some (FileNode ''b.py'' ''/r/subdir/b.py'' ''subdir/b.py'' File True None None)"
    by (simp add: scenario_tree_def)
  have nc: "\<not> covered scenario_tree ''/r/subdir'' [0]"
    by (simp add: covered_Cons covered_Nil scenario_tree_def)
  have a: "subtree_at scenario_tree [0] =
     Some (FileNode ''a.py'' ''/r/a.py'' ''a.py'' File True None None)"
    by (simp add: scenario_tree_def)
  have np: "''/r/subdir'' \<notin> path ` set (preorder (FileNode ''a.py'' ''/r/a.py'' ''a.py'' File True None None))"
    by simp
  obtain n' where n': "subtree_at (updateNodeChecked scenario_tree ''/r/subdir'' False) [1, 0] = Some n'"
    "same_fields (FileNode ''b.py'' ''/r/subdir/b.py'' ''subdir/b.py'' File True None None) n'"
    "checked n' = False"
    using updateNodeChecked_overwrites_subtree[of scenario_tree "''/r/subdir''" "[1, 0]" False] b c
    by (auto simp: option_rel_Some1)
  have "n' = FileNode ''b.py'' ''/r/subdir/b.py'' ''subdir/b.py'' File False None None"
    using n'(2,3) by (cases n') (simp add: same_fields_def)
  moreover have "subtree_at (updateNodeChecked scenario_tree ''/r/subdir'' False) [0] =
     Some (FileNode ''a.py'' ''/r/a.py'' ''a.py'' File True None None)"
    using updateNodeChecked_overwrites_subtree[of scenario_tree "''/r/subdir''" "[0]" False] a nc np
    by blast
  ultimately show ?thesis using c b nc np n'(1) by simp
qed

text \<open>
  Claim C2. For every tree \<open>t\<close>, \<open>extractCheckedFiles t\<close> is the list of the \<open>rel_path\<close>
  of exactly the nodes that are of type file and checked, in depth-first order, children
  in array order. A checked folder or binary node contributes nothing, so a tree with no
  checked file node gives the empty list.
\<close>

theorem extractCheckedFiles_checked_files_in_order:
  "extractCheckedFiles t =
     map rel_path (filter (\<lambda>n. type n = File \<and> checked n) (preorder t)) \<and>
   ((\<forall>n \<in> set (preorder t). \<not> (type n = File \<and> checked n)) \<longrightarrow> extractCheckedFiles t = [])"
proof (intro conjI impI)
  show "extractCheckedFiles t =
     map rel_path (filter (\<lambda>n. type n = File \<and> checked n) (preorder t))"
    by (rule extract_preorder)
next
  assume "\<forall>n \<in> set (preorder t). \<not> (type n = File \<and> checked n)"
  then have "filter (\<lambda>n. type n = File \<and> checked n) (preorder t) = []"
    by (simp add: filter_empty_conv)
  then show "extractCheckedFiles t = []" by (simp add: extract_preorder)
qed

text \<open>
  The specification's scenario: both files are selected in the scenario tree, in
  traversal order, although root and \<^verbatim>\<open>subdir\<close> are checked too; after the root is
  unchecked no file node is checked and the selection is empty.
\<close>

theorem extractCheckedFiles_checked_files_in_order_witness:
  "extractCheckedFiles scenario_tree = [''a.py'', ''subdir/b.py''] \<and>
   filter (\<lambda>n. type n = File \<and> checked n)
     (preorder (updateNodeChecked scenario_tree ''/r'' False)) = [] \<and>
   extractCheckedFiles (updateNodeChecked scenario_tree ''/r'' False) = []"
proof -
  have none: "\<forall>n \<in> set (preorder (updateNodeChecked scenario_tree ''/r'' False)).
                \<not> (type n = File \<and> checked n)"
    by (simp add: scenario_tree_def)
  have "extractCheckedFiles (updateNodeChecked scenario_tree ''/r'' False) = []"
    using extractCheckedFiles_checked_files_in_order[of "updateNodeChecked scenario_tree ''/r'' False"]
      none by blast
  moreover have "extractCheckedFiles scenario_tree = [''a.py'', ''subdir/b.py'']"
    using extractCheckedFiles_checked_files_in_order[of scenario_tree]
    by (simp add: scenario_tree_def)
  ultimately show ?thesis using none by (simp add: filter_empty_conv)
qed

text \<open>
  Claim C9. For every tree \<open>t\<close>, path \<open>p\<close> and boolean \<open>v\<close>: when no node of \<open>t\<close> has
  path \<open>p\<close>, \<open>updateNodeChecked t p v\<close> is \<open>t\<close> itself; there is no error value.
\<close>

theorem updateNodeChecked_missing_path_noop:
  "p \<notin> path ` set (preorder t) \<Longrightarrow> updateNodeChecked t p v = t"
  by (rule updateNodeChecked_no_match)

theorem updateNodeChecked_missing_path_noop_witness:
  "''nonexistent'' \<notin> path ` set (preorder scenario_tree) \<and>
   updateNodeChecked scenario_tree ''nonexistent'' True = scenario_tree"
proof -
  have h: "''nonexistent'' \<notin> path ` set (preorder scenario_tree)"
    by (simp add: scenario_tree_def)
  show ?thesis using h updateNodeChecked_missing_path_noop[OF h] by simp
qed

section \<open>Properties of the frame buffer\<close>







section \<open>Invariants of the event model\<close>

lemma commit_synced_id: "synced w \<Longrightarrow> commit w = w"
  by (auto simp: synced_def commit_def split: option.splits)

lemma slice_length: "length (slice (- 50) xs) \<le> 50"
  by (simp add: slice_def Let_def)

lemma coherent_parts_frames:
  "coherent_parts tms nt pi (Some ts) ni \<Longrightarrow> length fs \<le> 50 \<Longrightarrow>
   coherent_parts tms nt pi (Some (ts\<lparr>frames := fs\<rparr>)) ni"
  unfolding coherent_parts_def by simp

lemma coherent_pull_done: "coherent w \<Longrightarrow> coherent (pull_done k r w)"
  by (auto simp: pull_done_def setFrames_def coherent_def slice_length coherent_parts_frames
      split: sum.splits option.splits)

lemma coherent_parts_rearm:
  assumes "coherent_parts tms nt pi tso ni"
  shows "coherent_parts (map (\<lambda>u. if timer_id u = i then u\<lparr>due := d u\<rparr> else u) tms) nt pi tso ni"
proof -
  let ?f = "\<lambda>u. if timer_id u = i then u\<lparr>due := d u\<rparr> else u"
  have ids: "map timer_id (map ?f tms) = map timer_id tms"
    by (induction tms) auto
  have ids': "timer_id ` set (map ?f tms) = timer_id ` set tms"
    using ids by (metis set_map)
  have keep: "\<And>u. timer_id (?f u) = timer_id u \<and> callback (?f u) = callback u \<and> delay (?f u) = delay u"
    by simp
  show ?thesis
    using assms unfolding coherent_parts_def ids ids'
    by auto
qed

lemma coherent_fire: "coherent w \<Longrightarrow> coherent (fire i w)"
  by (auto simp: fire_def Let_def coherent_def poll_begin_def pull_begin_def fetch_def coherent_parts_rearm
      split: option.splits callback.splits)

lemma coherent_handle: "coherent w \<Longrightarrow> coherent (handle e w)"
proof (cases e)
  case (Fire i) then show "coherent w \<Longrightarrow> coherent (handle e w)" by (simp add: coherent_fire)
next
  case (FramesResponse k r) then show "coherent w \<Longrightarrow> coherent (handle e w)" by (simp add: coherent_pull_done)
next
  case (StatusResponse r) then show "coherent w \<Longrightarrow> coherent (handle e w)"
    by (simp add: poll_done_def console_error_def coherent_def split: sum.splits)
next
  case (ScanResponse r) then show "coherent w \<Longrightarrow> coherent (handle e w)"
    by (simp add: handleScan_done_def alert_def Let_def coherent_def split: sum.splits option.splits)
next
  case (IngestResponse r) then show "coherent w \<Longrightarrow> coherent (handle e w)"
    by (simp add: handleStartIngest_done_def alert_def coherent_def split: sum.splits)
next
  case ClickStart then show "coherent w \<Longrightarrow> coherent (handle e w)"
    by (simp add: handleStartIngest_begin_def alert_def fetch_def Let_def coherent_def split: option.splits)
next
  case ClickScan then show "coherent w \<Longrightarrow> coherent (handle e w)"
    by (simp add: handleScan_begin_def fetch_def Let_def coherent_def)
next
  case (ToggleCheck n b) then show "coherent w \<Longrightarrow> coherent (handle e w)"
    by (simp add: handleToggleCheck_def coherent_def split: option.splits)
qed (simp_all add: coherent_def)

lemma coherent_parts_clear:
  assumes "coherent_parts tms nt pi (Some ts) ni"
  shows "interval ts = Some i \<Longrightarrow> coherent_parts (filter (\<lambda>t. timer_id t \<noteq> i) tms) nt pi None ni"
    and "interval ts = None \<Longrightarrow> coherent_parts tms nt pi None ni"
    and "interval ts = Some i \<Longrightarrow> coherent_parts (filter (\<lambda>t. timer_id t \<noteq> i) tms) nt pi
           (Some (ts\<lparr>isRunning_dep := False, interval := None\<rparr>)) ni"
  using assms unfolding coherent_parts_def
  by (auto simp: distinct_map_filter)

lemma coherent_parts_set:
  assumes "coherent_parts tms nt pi (Some ts) ni" "interval ts = None"
  shows "coherent_parts (tms @ [\<lparr>timer_id = nt, callback = TelemetryPull (inst_id ts), delay = 800, due = d\<rparr>])
           (Suc nt) pi (Some (ts\<lparr>isRunning_dep := True, interval := Some nt\<rparr>)) ni"
  using assms unfolding coherent_parts_def
  by (auto simp: less_Suc_eq)

lemma coherent_parts_mount:
  assumes "coherent_parts tms nt pi None ni"
  shows "coherent_parts (tms @ [\<lparr>timer_id = nt, callback = TelemetryPull ni, delay = 800, due = d\<rparr>])
           (Suc nt) pi (Some \<lparr>inst_id = ni, frames = [], isRunning_dep = True, interval = Some nt\<rparr>) (Suc ni)"
    and "coherent_parts tms nt pi (Some \<lparr>inst_id = ni, frames = [], isRunning_dep = False, interval = None\<rparr>) (Suc ni)"
  using assms unfolding coherent_parts_def
  by (auto simp: less_Suc_eq)


lemma commit_cases:
  "showInspector w \<Longrightarrow> thoughtStream w = None \<Longrightarrow> is_running (status w) \<Longrightarrow>
     commit w = w\<lparr>timers := timers w @ [\<lparr>timer_id = next_timer w,
                     callback = TelemetryPull (next_instance w), delay = 800, due = clock w + 800\<rparr>],
                   next_timer := Suc (next_timer w),
                   thoughtStream := Some \<lparr>inst_id = next_instance w, frames = [],
                     isRunning_dep = True, interval = Some (next_timer w)\<rparr>,
                   next_instance := Suc (next_instance w)\<rparr>"
  "showInspector w \<Longrightarrow> thoughtStream w = None \<Longrightarrow> \<not> is_running (status w) \<Longrightarrow>
     commit w = w\<lparr>thoughtStream := Some \<lparr>inst_id = next_instance w, frames = [],
                     isRunning_dep = False, interval = None\<rparr>,
                   next_instance := Suc (next_instance w)\<rparr>"
  "showInspector w \<Longrightarrow> thoughtStream w = Some ts \<Longrightarrow> isRunning_dep ts = is_running (status w) \<Longrightarrow>
     commit w = w"
  "showInspector w \<Longrightarrow> thoughtStream w = Some ts \<Longrightarrow> \<not> isRunning_dep ts \<Longrightarrow> interval ts = None \<Longrightarrow>
   is_running (status w) \<Longrightarrow>
     commit w = w\<lparr>timers := timers w @ [\<lparr>timer_id = next_timer w,
                     callback = TelemetryPull (inst_id ts), delay = 800, due = clock w + 800\<rparr>],
                   next_timer := Suc (next_timer w),
                   thoughtStream := Some (ts\<lparr>isRunning_dep := True, interval := Some (next_timer w)\<rparr>)\<rparr>"
  "showInspector w \<Longrightarrow> thoughtStream w = Some ts \<Longrightarrow> isRunning_dep ts \<Longrightarrow> interval ts = Some i \<Longrightarrow>
   \<not> is_running (status w) \<Longrightarrow>
     commit w = w\<lparr>timers := filter (\<lambda>t. timer_id t \<noteq> i) (timers w),
                   thoughtStream := Some (ts\<lparr>isRunning_dep := False, interval := None\<rparr>)\<rparr>"
  "\<not> showInspector w \<Longrightarrow> thoughtStream w = None \<Longrightarrow> commit w = w"
  "\<not> showInspector w \<Longrightarrow> thoughtStream w = Some ts \<Longrightarrow> interval ts = Some i \<Longrightarrow>
     commit w = w\<lparr>timers := filter (\<lambda>t. timer_id t \<noteq> i) (timers w), thoughtStream := None\<rparr>"
  "\<not> showInspector w \<Longrightarrow> thoughtStream w = Some ts \<Longrightarrow> interval ts = None \<Longrightarrow>
     commit w = w\<lparr>thoughtStream := None\<rparr>"
  by (simp_all add: commit_def thoughtStream_effect_def thoughtStream_cleanup_def
      setInterval_def clearInterval_def Let_def)

lemma coherent_interval_dep:
  "coherent w \<Longrightarrow> thoughtStream w = Some ts \<Longrightarrow> (interval ts = None) = (\<not> isRunning_dep ts)"
  unfolding coherent_def coherent_parts_def by (cases "interval ts") auto

lemma coherent_commit:
  fixes w :: "'f world"
  assumes "coherent w"
  shows "coherent (commit w)"
proof (cases "thoughtStream w")
  case None
  then have p: "coherent_parts (timers w) (next_timer w) (poll_interval w)
      (None :: 'f thought_stream option) (next_instance w)"
    using assms by (simp add: coherent_def)
  show ?thesis
  proof (cases "showInspector w")
    case True
    then show ?thesis using None coherent_parts_mount[OF p]
      by (cases "is_running (status w)") (simp_all add: commit_cases coherent_def)
  next
    case False
    then show ?thesis using None assms by (simp add: commit_cases)
  qed
next
  case (Some ts)
  then have p: "coherent_parts (timers w) (next_timer w) (poll_interval w) (Some ts) (next_instance w)"
    using assms by (simp add: coherent_def)
  show ?thesis
  proof (cases "interval ts")
    case None
    then have d: "\<not> isRunning_dep ts" using coherent_interval_dep[OF assms Some] by simp
    show ?thesis
    proof (cases "showInspector w")
      case True
      then show ?thesis using Some None d assms coherent_parts_set[OF p None]
        by (cases "is_running (status w)") (simp_all add: commit_cases coherent_def)
    next
      case False
      then show ?thesis using Some None coherent_parts_clear(2)[OF p None]
        by (simp add: commit_cases coherent_def)
    qed
  next
    case (Some i)
    note i = this
    then have d: "isRunning_dep ts" using coherent_interval_dep[OF assms \<open>thoughtStream w = Some ts\<close>] by simp
    show ?thesis
    proof (cases "showInspector w")
      case True
      then show ?thesis using \<open>thoughtStream w = Some ts\<close> i d assms coherent_parts_clear(3)[OF p i]
        by (cases "is_running (status w)") (simp_all add: commit_cases coherent_def)
    next
      case False
      then show ?thesis using \<open>thoughtStream w = Some ts\<close> i coherent_parts_clear(1)[OF p i]
        by (simp add: commit_cases coherent_def)
    qed
  qed
qed

lemma synced_commit: "synced (commit w)"
  unfolding commit_def synced_def thoughtStream_effect_def thoughtStream_cleanup_def
    setInterval_def clearInterval_def
  by (simp add: Let_def split: option.splits)

lemma stable_step: "stable w \<Longrightarrow> stable (step e w)"
  by (simp add: stable_def step_def coherent_handle coherent_commit synced_commit)

lemma run_simps [simp]:
  "run [] w = w"
  "run (e # evs) w = run evs (step e w)"
  "run (evs @ evs') w = run evs' (run evs w)"
  by (simp_all add: run_def)

lemma stable_run: "stable w \<Longrightarrow> stable (run evs w)"
  by (induction evs arbitrary: w) (simp_all add: stable_step)

lemma mountIngestView_eq:
  "mountIngestView db =
     (initial_world db)\<lparr>timers := [\<lparr>timer_id = 0, callback = StatusPoll, delay = 1000, due = 1000\<rparr>],
        next_timer := 1, requests := [GetIngestStatus], poll_interval := 0,
        thoughtStream := Some \<lparr>inst_id = 0, frames = [], isRunning_dep = False, interval = None\<rparr>,
        next_instance := 1\<rparr>"
  by (simp add: mountIngestView_def status_effect_def poll_begin_def fetch_def setInterval_def
      commit_def thoughtStream_effect_def initial_world_def Let_def)

lemma stable_mount: "stable (mountIngestView db)"
  by (simp add: mountIngestView_eq stable_def coherent_def coherent_parts_def synced_def initial_world_def)

lemma timers_fire:
  "map timer_id (timers (fire i w)) = map timer_id (timers w)"
  "map callback (timers (fire i w)) = map callback (timers w)"
  by (auto simp: fire_def Let_def poll_begin_def pull_begin_def fetch_def comp_def
      split: option.splits callback.splits)

lemma handle_keeps:
  "poll_interval (handle e w) = poll_interval w"
  "next_timer (handle e w) = next_timer w"
  "next_instance (handle e w) = next_instance w"
  "map timer_id (timers (handle e w)) = map timer_id (timers w)"
  "map callback (timers (handle e w)) = map callback (timers w)"
  "telemetry_handle (handle e w) = telemetry_handle w"
  "clock w \<le> clock (handle e w)"
  by (cases e;
      simp add: timers_fire fire_def poll_done_def pull_done_def setFrames_def handleScan_begin_def
        handleScan_done_def handleToggleCheck_def handleStartIngest_begin_def
        handleStartIngest_done_def alert_def console_error_def fetch_def poll_begin_def
        pull_begin_def telemetry_handle_def Let_def
        split: option.splits sum.splits callback.splits)+

lemma commit_keeps:
  "poll_interval (commit w) = poll_interval w"
  "requests (commit w) = requests w"
  "clock (commit w) = clock w"
  "status (commit w) = status w"
  "alerts (commit w) = alerts w"
  "console (commit w) = console w"
  "showInspector (commit w) = showInspector w"
  "tree (commit w) = tree w"
  "next_timer w \<le> next_timer (commit w)"
  by (simp_all add: commit_def thoughtStream_effect_def thoughtStream_cleanup_def
      setInterval_def clearInterval_def Let_def split: option.splits)

lemma step_keeps:
  "poll_interval (step e w) = poll_interval w"
  "next_timer w \<le> next_timer (step e w)"
  "clock w \<le> clock (step e w)"
  using commit_keeps(9)[of "handle e w"]
  by (simp_all add: step_def commit_keeps handle_keeps)

lemma run_keeps:
  "poll_interval (run evs w) = poll_interval w"
  "next_timer w \<le> next_timer (run evs w)"
  "clock w \<le> clock (run evs w)"
proof (induction evs arbitrary: w)
  case Nil
  { case 1 show ?case by simp next case 2 show ?case by simp next case 3 show ?case by simp }
next
  case (Cons e evs)
  { case 1 show ?case using Cons.IH(1)[of "step e w"] by (simp add: step_keeps)
  next case 2 show ?case using Cons.IH(2)[of "step e w"] step_keeps(2)[of w e] by simp
  next case 3 show ?case using Cons.IH(3)[of "step e w"] step_keeps(3)[of w e] by simp }
qed

text \<open>An idle puller has no timer: every registered timer is the status poller's.\<close>

lemma idle_timers:
  assumes "coherent w" "telemetry_handle w = None" "t \<in> set (timers w)"
  shows "callback t = StatusPoll"
  using assms unfolding coherent_def coherent_parts_def telemetry_handle_def
  by (auto split: option.splits)

lemma stable_idle:
  "stable w \<Longrightarrow> \<not> is_running (status w) \<Longrightarrow> telemetry_handle w = None"
  unfolding stable_def coherent_def coherent_parts_def synced_def telemetry_handle_def
  by (cases "thoughtStream w") (auto split: option.splits)

lemma pulls_fire:
  assumes "\<forall>t \<in> set (timers w). callback t \<noteq> StatusPoll \<longrightarrow> clock w < due t"
  shows "telemetry_pulls (fire i w) = telemetry_pulls w"
proof (cases "find (\<lambda>t. timer_id t = i) (timers w)")
  case None
  then show ?thesis by (simp add: fire_def)
next
  case (Some t)
  then have "t \<in> set (timers w)" by (auto simp: find_Some_iff)
  then have "callback t = StatusPoll \<or> clock w < due t" using assms by auto
  then show ?thesis using Some
    by (auto simp: fire_def Let_def poll_begin_def fetch_def telemetry_pulls_def split: callback.splits)
qed

lemma pulls_handle:
  assumes "\<forall>t \<in> set (timers w). callback t \<noteq> StatusPoll \<longrightarrow> clock w < due t"
  shows "telemetry_pulls (handle e w) = telemetry_pulls w"
proof (cases e)
  case (Fire i)
  then show ?thesis using pulls_fire[OF assms] by simp
qed (simp_all add: telemetry_pulls_def poll_done_def pull_done_def setFrames_def handleScan_begin_def
        handleScan_done_def handleToggleCheck_def handleStartIngest_begin_def
        handleStartIngest_done_def alert_def console_error_def fetch_def Let_def
        split: option.splits sum.splits)

lemma pulls_step:
  assumes "\<forall>t \<in> set (timers w). callback t \<noteq> StatusPoll \<longrightarrow> clock w < due t"
  shows "telemetry_pulls (step e w) = telemetry_pulls w"
  using pulls_handle[OF assms, of e]
  by (simp add: step_def telemetry_pulls_def commit_keeps)

lemma idle_step_no_pull:
  assumes "stable w" "\<not> is_running (status w)"
  shows "telemetry_pulls (step e w) = telemetry_pulls w"
proof (rule pulls_step)
  have "coherent w" using assms by (simp add: stable_def)
  then show "\<forall>t \<in> set (timers w). callback t \<noteq> StatusPoll \<longrightarrow> clock w < due t"
    using idle_timers[OF _ stable_idle[OF assms]] by blast
qed

lemma idle_run_no_pull:
  assumes "stable w" "\<forall>k < length evs. \<not> is_running (status (run (take k evs) w))"
  shows "telemetry_pulls (run evs w) = telemetry_pulls w"
  using assms(2)
proof (induction evs rule: rev_induct)
  case Nil
  show ?case by simp
next
  case (snoc e evs)
  have a: "\<forall>k < length evs. \<not> is_running (status (run (take k evs) w))"
  proof (intro allI impI)
    fix k assume "k < length evs"
    then show "\<not> is_running (status (run (take k evs) w))"
      using snoc.prems[rule_format, of k] by simp
  qed
  have b: "\<not> is_running (status (run evs w))"
    using snoc.prems[rule_format, of "length evs"] by simp
  show ?case
    using snoc.IH[OF a] idle_step_no_pull[OF stable_run[OF assms(1)] b, of e] by simp
qed

lemma coherent_ids:
  "coherent w \<Longrightarrow> t \<in> set (timers w) \<Longrightarrow> timer_id t < next_timer w"
  "coherent w \<Longrightarrow> poll_interval w \<in> timer_id ` set (timers w)"
  unfolding coherent_def coherent_parts_def by blast+

lemma coherent_status_timer:
  assumes "coherent w" "t \<in> set (timers w)" "callback t = StatusPoll"
  shows "timer_id t = poll_interval w \<and> delay t = 1000"
  using assms unfolding coherent_def coherent_parts_def by auto

lemma coherent_telemetry_timer:
  assumes "coherent w" "t \<in> set (timers w)" "callback t \<noteq> StatusPoll"
  shows "delay t = 800 \<and> telemetry_handle w = Some (timer_id t)"
  using assms unfolding coherent_def coherent_parts_def telemetry_handle_def by auto

lemma coherent_handle_props:
  assumes "coherent w" "telemetry_handle w = Some i"
  shows "i \<noteq> poll_interval w" "i < next_timer w" "i \<in> timer_id ` set (timers w)"
proof -
  obtain ts where ts: "thoughtStream w = Some ts" "interval ts = Some i"
    using assms(2) by (auto simp: telemetry_handle_def split: option.splits)
  have p: "coherent_parts (timers w) (next_timer w) (poll_interval w) (Some ts) (next_instance w)"
    using assms(1) ts(1) by (simp add: coherent_def)
  then show "i \<noteq> poll_interval w" and m: "i \<in> timer_id ` set (timers w)"
    using ts(2) unfolding coherent_parts_def by blast+
  then obtain t where "t \<in> set (timers w)" "timer_id t = i" by auto
  then show "i < next_timer w" using p unfolding coherent_parts_def by blast
qed

lemma coherent_poll_alive:
  assumes "coherent w"
  shows "\<exists>t \<in> set (timers w). timer_id t = poll_interval w \<and> callback t = StatusPoll \<and> delay t = 1000"
proof -
  obtain t where t: "t \<in> set (timers w)" "timer_id t = poll_interval w"
    using coherent_ids(2)[OF assms] by (metis imageE)
  have "callback t = StatusPoll"
  proof (rule ccontr)
    assume "callback t \<noteq> StatusPoll"
    then have "telemetry_handle w = Some (timer_id t)" using coherent_telemetry_timer[OF assms t(1)] by simp
    then show False using coherent_handle_props(1)[OF assms] t(2) by simp
  qed
  then show ?thesis using t coherent_status_timer[OF assms t(1)] by auto
qed


lemma deactivate_cancels:
  assumes "stable w" "telemetry_handle w = Some i" "\<not> is_running (status (step e w))"
  shows "telemetry_handle (step e w) = None \<and> i \<notin> timer_id ` set (timers (step e w))"
proof -
  have i': "stable (step e w)" using assms(1) by (rule stable_step)
  then have h: "telemetry_handle (step e w) = None" using assms(3) by (rule stable_idle)
  have coherent': "coherent (step e w)" and coherent: "coherent w" using i' assms(1) by (simp_all add: stable_def)
  have "timer_id t \<noteq> i" if "t \<in> set (timers (step e w))" for t
  proof -
    have "callback t = StatusPoll" using idle_timers[OF coherent' h that] .
    then have "timer_id t = poll_interval w"
      using coherent_status_timer[OF coherent' that] by (simp add: step_keeps)
    then show ?thesis using coherent_handle_props(1)[OF coherent assms(2)] by simp
  qed
  then show ?thesis using h by auto
qed

lemma commit_activate:
  assumes "coherent w" "telemetry_handle w = None" "telemetry_handle (commit w) = Some j"
  shows "j = next_timer w \<and>
         (\<exists>k. timers (commit w) = timers w @ [\<lparr>timer_id = j, callback = TelemetryPull k,
                                                 delay = 800, due = clock w + 800\<rparr>])"
proof (cases "thoughtStream w")
  case None
  show ?thesis
  proof (cases "showInspector w \<and> is_running (status w)")
    case True
    then show ?thesis using None assms(3) by (simp add: commit_cases telemetry_handle_def)
  next
    case False
    then have "telemetry_handle (commit w) = None" using None
      by (cases "showInspector w") (auto simp: commit_cases telemetry_handle_def)
    then show ?thesis using assms(3) by simp
  qed
next
  case (Some ts)
  then have n: "interval ts = None" using assms(2) by (simp add: telemetry_handle_def)
  then have d: "\<not> isRunning_dep ts" using coherent_interval_dep[OF assms(1) Some] by simp
  show ?thesis
  proof (cases "showInspector w \<and> is_running (status w)")
    case True
    then show ?thesis using Some n d assms(3) by (simp add: commit_cases telemetry_handle_def)
  next
    case False
    then have "telemetry_handle (commit w) = None" using Some n d
      by (cases "showInspector w") (auto simp: commit_cases telemetry_handle_def)
    then show ?thesis using assms(3) by simp
  qed
qed

lemma step_activate:
  assumes "stable w" "telemetry_handle w = None" "telemetry_handle (step e w) = Some j"
  shows "j = next_timer w"
    and "\<exists>k. timers (step e w) = timers (handle e w) @ [\<lparr>timer_id = j, callback = TelemetryPull k,
                                                 delay = 800, due = clock (step e w) + 800\<rparr>]"
    and "\<forall>t \<in> set (timers (handle e w)). callback t = StatusPoll"
    and "j \<notin> timer_id ` set (timers w)"
proof -
  have coherent: "coherent w" using assms(1) by (simp add: stable_def)
  have coherent': "coherent (handle e w)" using coherent by (rule coherent_handle)
  have h': "telemetry_handle (handle e w) = None" using assms(2) by (simp add: handle_keeps)
  have c: "telemetry_handle (commit (handle e w)) = Some j" using assms(3) by (simp add: step_def)
  note a = commit_activate[OF coherent' h' c]
  show j: "j = next_timer w" using a by (simp add: handle_keeps)
  from a obtain k where "timers (commit (handle e w)) =
      timers (handle e w) @ [\<lparr>timer_id = j, callback = TelemetryPull k, delay = 800,
                               due = clock (handle e w) + 800\<rparr>]" by blast
  then show "\<exists>k. timers (step e w) = timers (handle e w) @ [\<lparr>timer_id = j, callback = TelemetryPull k,
                                                 delay = 800, due = clock (step e w) + 800\<rparr>]"
    by (simp add: step_def commit_keeps)
  show "\<forall>t \<in> set (timers (handle e w)). callback t = StatusPoll"
    using idle_timers[OF coherent' h'] by blast
  show "j \<notin> timer_id ` set (timers w)"
    using coherent_ids(1)[OF coherent] j by fastforce
qed

lemma quiet_fire:
  assumes "coherent w" "quiet_until T w" "T \<le> clock w + 800"
  shows "quiet_until T (fire i w)"
proof -
  let ?f = "\<lambda>u. if timer_id u = i then u\<lparr>due := clock w + delay u\<rparr> else u"
  have "quiet_until T (w\<lparr>timers := map ?f (timers w)\<rparr>)"
    unfolding quiet_until_def
  proof (intro ballI impI)
    fix t assume t: "t \<in> set (timers (w\<lparr>timers := map ?f (timers w)\<rparr>))" "callback t \<noteq> StatusPoll"
    then obtain u where u: "u \<in> set (timers w)" "t = ?f u" by auto
    then have cu: "callback u \<noteq> StatusPoll" using t(2) by (auto split: if_splits)
    then have "delay u = 800" "T \<le> due u"
      using coherent_telemetry_timer[OF assms(1) u(1)] assms(2) u(1) by (auto simp: quiet_until_def)
    then show "T \<le> due t" using u(2) assms(3) by auto
  qed
  then show ?thesis using assms(2)
    by (auto simp: fire_def Let_def poll_begin_def pull_begin_def fetch_def quiet_until_def
        split: option.splits callback.splits)
qed

lemma quiet_handle:
  assumes "coherent w" "quiet_until T w" "T \<le> clock w + 800"
  shows "quiet_until T (handle e w)"
proof (cases e)
  case (Fire i)
  then show ?thesis using quiet_fire[OF assms] by simp
qed (use assms(2) in \<open>simp_all add: quiet_until_def poll_done_def pull_done_def setFrames_def
        handleScan_begin_def handleScan_done_def handleToggleCheck_def handleStartIngest_begin_def
        handleStartIngest_done_def alert_def console_error_def fetch_def Let_def
        split: option.splits sum.splits\<close>)

lemma quiet_commit:
  assumes "quiet_until T w" "T \<le> clock w + 800"
  shows "quiet_until T (commit w)"
  using assms unfolding quiet_until_def commit_def thoughtStream_effect_def
    thoughtStream_cleanup_def setInterval_def clearInterval_def
  by (auto simp: Let_def split: option.splits)

lemma quiet_step:
  assumes "stable w" "quiet_until T w" "T \<le> clock w + 800"
  shows "quiet_until T (step e w)"
proof -
  have coherent: "coherent w" using assms(1) by (simp add: stable_def)
  have "T \<le> clock (handle e w) + 800" using assms(3) handle_keeps(7)[of w e] by simp
  then show ?thesis using quiet_commit[OF quiet_handle[OF coherent assms(2,3)]] by (simp add: step_def)
qed

lemma quiet_pulls:
  assumes "quiet_until T w" "clock w < T"
  shows "telemetry_pulls (step e w) = telemetry_pulls w"
  using assms by (intro pulls_step) (auto simp: quiet_until_def)

lemma quiet_run:
  assumes "stable w" "quiet_until T w" "T \<le> clock w + 800" "clock (run evs w) < T"
  shows "telemetry_pulls (run evs w) = telemetry_pulls w"
  using assms
proof (induction evs arbitrary: w)
  case Nil
  show ?case by simp
next
  case (Cons e evs)
  have c: "clock w \<le> clock (step e w)" by (rule step_keeps)
  have "clock (step e w) \<le> clock (run evs (step e w))" by (rule run_keeps)
  then have lt: "clock w < T" using Cons.prems(4) c by simp
  have "telemetry_pulls (run evs (step e w)) = telemetry_pulls (step e w)"
  proof (rule Cons.IH)
    show "stable (step e w)" using Cons.prems(1) by (rule stable_step)
    show "quiet_until T (step e w)" using Cons.prems(1,2,3) by (rule quiet_step)
    show "T \<le> clock (step e w) + 800" using Cons.prems(3) c by simp
    show "clock (run evs (step e w)) < T" using Cons.prems(4) by simp
  qed
  then show ?case using quiet_pulls[OF Cons.prems(2) lt, of e] by simp
qed

lemma activation_quiet:
  assumes "stable w" "telemetry_handle w = None" "telemetry_handle (step e w) = Some j"
  shows "telemetry_pulls (step e w) = telemetry_pulls w"
    and "quiet_until (clock (step e w) + 800) (step e w)"
proof -
  have coherent: "coherent w" using assms(1) by (simp add: stable_def)
  show "telemetry_pulls (step e w) = telemetry_pulls w"
    using idle_timers[OF coherent assms(2)] by (intro pulls_step) blast
  show "quiet_until (clock (step e w) + 800) (step e w)"
    using step_activate(2,3)[OF assms] by (auto simp: quiet_until_def)
qed

lemma handle_lt_next:
  assumes "stable w" "telemetry_handle w = Some i"
  shows "i < next_timer w"
  using coherent_handle_props(2)[OF _ assms(2)] assms(1) by (simp add: stable_def)

lemma idle_no_timers:
  assumes "stable w" "\<not> is_running (status w)"
  shows "telemetry_timers w = []"
proof -
  have "coherent w" using assms(1) by (simp add: stable_def)
  then have "\<forall>t \<in> set (timers w). callback t = StatusPoll"
    using idle_timers[OF _ stable_idle[OF assms]] by blast
  then show ?thesis by (simp add: telemetry_timers_def)
qed

section \<open>Properties of the telemetry stream and the status poller\<close>



text \<open>
  What the status poller does with the outcome of a pull, in every state the view can
  reach: when the promise of \<^verbatim>\<open>api.getIngestStatus\<close> rejects (no response, or a body that
  does not parse) the failure is logged to the console and nothing else changes, so the
  held snapshot, the timers and their periods stay as they were; when it resolves, the
  whole snapshot is replaced by the value received; the status poller's timer is
  registered with period 1000 after any sequence of events; and mounting the view sends
  the first status pull at once, at time 0, before the timer is first due.
\<close>

lemma status_poll_rejection_keeps_snapshot:
  assumes "w = run evs (mountIngestView db)"
  shows "(getIngestStatus r = Inl e \<longrightarrow>
            step (StatusResponse r) w = w\<lparr>console := console w @ [(''Polling failed'', e)]\<rparr>) \<and>
         (getIngestStatus r = Inr s \<longrightarrow> status (step (StatusResponse r) w) = s) \<and>
         (\<exists>t \<in> set (timers w).
            timer_id t = poll_interval w \<and> callback t = StatusPoll \<and> delay t = 1000) \<and>
         requests (mountIngestView db :: 'f world) = [GetIngestStatus] \<and>
         clock (mountIngestView db :: 'f world) = 0 \<and>
         timers (mountIngestView db :: 'f world) =
           [\<lparr>timer_id = 0, callback = StatusPoll, delay = 1000, due = 1000\<rparr>]"
proof -
  have i: "stable w" unfolding assms using stable_mount by (rule stable_run)
  have 1: "step (StatusResponse r) w = w\<lparr>console := console w @ [(''Polling failed'', e)]\<rparr>"
    if "getIngestStatus r = Inl e"
  proof -
    have "synced (w\<lparr>console := console w @ [(''Polling failed'', e)]\<rparr>)"
      using i by (simp add: stable_def synced_def)
    then show ?thesis using that
      by (simp add: step_def poll_done_def console_error_def commit_synced_id)
  qed
  have 2: "status (step (StatusResponse r) w) = s" if "getIngestStatus r = Inr s"
    using that by (simp add: step_def poll_done_def commit_keeps)
  have 3: "\<exists>t \<in> set (timers w).
            timer_id t = poll_interval w \<and> callback t = StatusPoll \<and> delay t = 1000"
    using i coherent_poll_alive[of w] by (simp add: stable_def)
  show ?thesis using 1 2 3 by (simp add: mountIngestView_eq initial_world_def)
qed

text \<open>
  Claim C7 says that a failed status pull leaves the held snapshot unchanged, is logged,
  and does not stop the poller. For a pull whose promise rejects the code does so, as
  shown above. It does not for a pull that the server answers with a status that is not
  ok and a body that parses: \<^verbatim>\<open>api.getIngestStatus\<close> (api.ts, lines 51 to 54) never reads
  \<^verbatim>\<open>res.ok\<close>, as \<^verbatim>\<open>scanPath\<close>, \<^verbatim>\<open>executeIngest\<close> and \<^verbatim>\<open>getInspectionFrames\<close> do, so the
  promise resolves with the body of the error answer and \<^verbatim>\<open>poll\<close> stores it. Here a view
  holds the snapshot of a running job and the server answers the next pull with such an
  error: the held snapshot is replaced by the body, nothing is logged, and the telemetry
  puller that ran is stopped.
\<close>

theorem status_poll_not_ok_replaces_snapshot:
  "status running_world = running_status \<and>
   console running_world = [] \<and>
   telemetry_handle running_world = Some 1 \<and>
   getIngestStatus (Response False (Inr idle_status)) = Inr idle_status \<and>
   status (step (StatusResponse (Response False (Inr idle_status))) running_world) =
     idle_status \<and>
   idle_status \<noteq> running_status \<and>
   console (step (StatusResponse (Response False (Inr idle_status))) running_world) = [] \<and>
   telemetry_handle (step (StatusResponse (Response False (Inr idle_status))) running_world) =
     None"
  by code_simp

text \<open>
  Claim C8. A telemetry round trip that fails (no response, a response that is not ok, or
  a body that does not parse) changes nothing at all: the frame buffer, the alerts, the
  console, the timers and their periods are as before, for the callback taken alone in
  any state and for the whole step in every state the view can reach.
\<close>

theorem telemetry_pull_failure_silent:
  fixes w :: "'f world"
  assumes "pull_failed r"
  shows "pull_done k r w = w \<and>
         step (FramesResponse k r) (run evs (mountIngestView db)) = run evs (mountIngestView db)"
proof -
  have p: "pull_done k r v = v" for v :: "'f world"
    using assms
    by (cases r) (auto simp: pull_failed_def pull_done_def getInspectionFrames_def isl_def
        split: sum.splits)
  have "stable (run evs (mountIngestView db :: 'f world))" using stable_mount by (rule stable_run)
  then show ?thesis using p by (simp add: step_def commit_synced_id stable_def)
qed

text \<open>
  A response that is not ok, though it carries frames, leaves a running view as it is:
  no alert, an empty console, the telemetry timer still registered with period 800.
\<close>

theorem telemetry_pull_failure_silent_witness:
  "pull_failed (Response False (Inr (Some [1, 2, 3 :: nat]))) \<and>
   pull_done 0 (Response False (Inr (Some [1, 2, 3]))) running_world = running_world \<and>
   step (FramesResponse 0 (Response False (Inr (Some [1, 2, 3])))) running_world = running_world \<and>
   alerts running_world = [] \<and> console running_world = [] \<and>
   map_option frames (thoughtStream running_world) = Some [] \<and>
   telemetry_timers running_world =
     [\<lparr>timer_id = 1, callback = TelemetryPull 0, delay = 800, due = 800\<rparr>]"
proof -
  have w: "running_world =
      run [StatusResponse (Response True (Inr running_status))] (mountIngestView (Some ''kb''))"
    by (simp add: running_world_def mounted_world_def)
  have f: "pull_failed (Response False (Inr (Some [1, 2, 3 :: nat])))"
    by (simp add: pull_failed_def)
  have c: "alerts running_world = []" "console running_world = []"
    "map_option frames (thoughtStream running_world) = Some []"
    "telemetry_timers running_world =
       [\<lparr>timer_id = 1, callback = TelemetryPull 0, delay = 800, due = 800\<rparr>]"
    by code_simp+
  show ?thesis
    using telemetry_pull_failure_silent[OF f, of 0 running_world
        "[StatusResponse (Response True (Inr running_status))]" "Some ''kb''"] f c
    unfolding w[symmetric] by simp
qed

lemma activation_starts:
  assumes "stable w" "showInspector (step e w)" "is_running (status (step e w))"
  shows "telemetry_handle (step e w) \<noteq> None"
proof -
  have i: "stable (step e w)" using assms(1) by (rule stable_step)
  then obtain ts where ts: "thoughtStream (step e w) = Some ts"
    "isRunning_dep ts = is_running (status (step e w))"
    using assms(2) by (cases "thoughtStream (step e w)") (auto simp: stable_def synced_def)
  have "(interval ts = None) = (\<not> isRunning_dep ts)"
    using i ts(1) by (intro coherent_interval_dep) (simp_all add: stable_def)
  then show ?thesis using ts assms(3) by (simp add: telemetry_handle_def)
qed

lemma hidden_no_puller:
  assumes "stable w" "\<not> showInspector w"
  shows "telemetry_handle w = None" "telemetry_timers w = []"
proof -
  have n: "thoughtStream w = None"
    using assms by (cases "thoughtStream w") (auto simp: stable_def synced_def)
  then show h: "telemetry_handle w = None" by (simp add: telemetry_handle_def)
  have "coherent w" using assms(1) by (simp add: stable_def)
  then have "\<forall>t \<in> set (timers w). callback t = StatusPoll"
    using idle_timers[OF _ h] by blast
  then show "telemetry_timers w = []" by (simp add: telemetry_timers_def)
qed

text \<open>
  Claim C4. The telemetry stream is the \<^verbatim>\<open>ThoughtStream\<close> rendered in the inspector pane;
  hidden, the pane holds no stream, no puller and no telemetry timer. In every state \<open>w\<close>
  the view can reach:
  \<^item> a telemetry puller runs only if the held snapshot says \<open>is_running\<close>; while it says
    not, no telemetry timer is registered;
  \<^item> over any further sequence of events during which \<open>is_running\<close> stays false, no
    telemetry pull is sent;
  \<^item> an event after which \<open>is_running\<close> is false leaves the puller's timer \<open>i\<close>
    unregistered and no puller running;
  \<^item> after every event that leaves the pane shown and \<open>is_running\<close> true a puller runs;
    so every event that takes a shown stream from inactive to active, the first time and
    every time after, starts one, under the handle \<open>next_timer w\<close>;
  \<^item> an event that starts a puller registers a timer under the handle \<open>next_timer w\<close>,
    which no registered timer has and which no puller has had in any earlier state of the
    run, first due a full 800 ms after the event: nothing of an earlier timer is resumed.
\<close>

theorem telemetry_gate:
  assumes "w = run evs (mountIngestView db)"
  shows "(telemetry_handle w \<noteq> None \<longrightarrow> is_running (status w)) \<and>
         (\<not> is_running (status w) \<longrightarrow> telemetry_timers w = []) \<and>
         ((\<forall>n < length evs'. \<not> is_running (status (run (take n evs') w))) \<longrightarrow>
            telemetry_pulls (run evs' w) = telemetry_pulls w) \<and>
         (telemetry_handle w = Some i \<and> \<not> is_running (status (step e w)) \<longrightarrow>
            telemetry_handle (step e w) = None \<and> i \<notin> timer_id ` set (timers (step e w))) \<and>
         (telemetry_handle w = None \<and> telemetry_handle (step e w) = Some j \<longrightarrow>
            j = next_timer w \<and> j \<notin> timer_id ` set (timers w) \<and>
            (\<forall>n \<le> length evs. telemetry_handle (run (take n evs) (mountIngestView db)) \<noteq> Some j) \<and>
            (\<exists>k. timers (step e w) =
                   timers (handle e w) @
                     [\<lparr>timer_id = j, callback = TelemetryPull k, delay = 800,
                       due = clock (step e w) + 800\<rparr>])) \<and>
         (showInspector (step e w) \<and> is_running (status (step e w)) \<longrightarrow>
            telemetry_handle (step e w) \<noteq> None) \<and>
         (telemetry_handle w = None \<and> showInspector (step e w) \<and>
          is_running (status (step e w)) \<longrightarrow>
            telemetry_handle (step e w) = Some (next_timer w)) \<and>
         (\<not> showInspector w \<longrightarrow> telemetry_handle w = None \<and> telemetry_timers w = [])"
proof -
  have i: "stable w" unfolding assms using stable_mount by (rule stable_run)
  have 1: "telemetry_handle w \<noteq> None \<longrightarrow> is_running (status w)"
    by (rule impI, rule ccontr) (simp add: stable_idle[OF i])
  have 2: "\<not> is_running (status w) \<longrightarrow> telemetry_timers w = []"
    using idle_no_timers[OF i] by blast
  have 3: "(\<forall>n < length evs'. \<not> is_running (status (run (take n evs') w))) \<longrightarrow>
            telemetry_pulls (run evs' w) = telemetry_pulls w"
    using idle_run_no_pull[OF i] by blast
  have 4: "telemetry_handle w = Some i \<and> \<not> is_running (status (step e w)) \<longrightarrow>
            telemetry_handle (step e w) = None \<and> i \<notin> timer_id ` set (timers (step e w))"
    using deactivate_cancels[OF i] by blast
  have 5: "telemetry_handle w = None \<and> telemetry_handle (step e w) = Some j \<longrightarrow>
            j = next_timer w \<and> j \<notin> timer_id ` set (timers w) \<and>
            (\<forall>n \<le> length evs. telemetry_handle (run (take n evs) (mountIngestView db)) \<noteq> Some j) \<and>
            (\<exists>k. timers (step e w) =
                   timers (handle e w) @
                     [\<lparr>timer_id = j, callback = TelemetryPull k, delay = 800,
                       due = clock (step e w) + 800\<rparr>])"
  proof (intro impI)
    assume a: "telemetry_handle w = None \<and> telemetry_handle (step e w) = Some j"
    note sa = step_activate[OF i conjunct1[OF a] conjunct2[OF a]]
    have old: "\<forall>n \<le> length evs. telemetry_handle (run (take n evs) (mountIngestView db)) \<noteq> Some j"
    proof (intro allI impI notI)
      fix n assume "n \<le> length evs"
        and h: "telemetry_handle (run (take n evs) (mountIngestView db)) = Some j"
      let ?v = "run (take n evs) (mountIngestView db)"
      have "stable ?v" using stable_mount by (rule stable_run)
      then have "j < next_timer ?v" using h by (rule handle_lt_next)
      moreover have "w = run (drop n evs) ?v"
        unfolding assms by (simp flip: run_simps(3))
      then have "next_timer ?v \<le> next_timer w" using run_keeps(2)[of ?v "drop n evs"] by simp
      ultimately show False using sa(1) by simp
    qed
    show "j = next_timer w \<and> j \<notin> timer_id ` set (timers w) \<and>
            (\<forall>n \<le> length evs. telemetry_handle (run (take n evs) (mountIngestView db)) \<noteq> Some j) \<and>
            (\<exists>k. timers (step e w) =
                   timers (handle e w) @
                     [\<lparr>timer_id = j, callback = TelemetryPull k, delay = 800,
                       due = clock (step e w) + 800\<rparr>])"
      using sa(1,2,4) old by blast
  qed
  have 6: "showInspector (step e w) \<and> is_running (status (step e w)) \<longrightarrow>
            telemetry_handle (step e w) \<noteq> None"
  proof (intro impI)
    assume a: "showInspector (step e w) \<and> is_running (status (step e w))"
    show "telemetry_handle (step e w) \<noteq> None"
      using activation_starts[OF i conjunct1[OF a] conjunct2[OF a]] .
  qed
  have 7: "telemetry_handle w = None \<and> showInspector (step e w) \<and>
          is_running (status (step e w)) \<longrightarrow>
            telemetry_handle (step e w) = Some (next_timer w)"
  proof (intro impI)
    assume a: "telemetry_handle w = None \<and> showInspector (step e w) \<and>
          is_running (status (step e w))"
    then have "telemetry_handle (step e w) \<noteq> None" using 6 by blast
    then obtain j' where j': "telemetry_handle (step e w) = Some j'" by blast
    have "j' = next_timer w" using step_activate(1)[OF i conjunct1[OF a] j'] .
    then show "telemetry_handle (step e w) = Some (next_timer w)" using j' by simp
  qed
  have 8: "\<not> showInspector w \<longrightarrow> telemetry_handle w = None \<and> telemetry_timers w = []"
  proof (intro impI)
    assume a: "\<not> showInspector w"
    show "telemetry_handle w = None \<and> telemetry_timers w = []"
      using hidden_no_puller[OF i a] by blast
  qed
  show ?thesis using 1 2 3 4 5 6 7 8 by blast
qed

text \<open>
  A mounted, idle view: five seconds pass and both timer handles are fired, and only
  status pulls go out. The status poll then reports a running job: the puller starts
  under the fresh handle 1, first due at 800. When the poll reports an idle job again,
  timer 1 is gone. Four seconds after the first start the job had been reported idle;
  when the poll reports it running again the puller starts anew, under the handle 2,
  first due at 4800. With the pane hidden, a poll that reports a running job starts
  nothing.
\<close>

theorem telemetry_gate_witness:
  "\<not> is_running (status mounted_world) \<and>
   telemetry_handle mounted_world = None \<and>
   telemetry_timers mounted_world = [] \<and>
   \<not> is_running (status (run (take 0 [Advance 5000, Fire 0, Fire 1]) mounted_world)) \<and>
   \<not> is_running (status (run (take 1 [Advance 5000, Fire 0, Fire 1]) mounted_world)) \<and>
   \<not> is_running (status (run (take 2 [Advance 5000, Fire 0, Fire 1]) mounted_world)) \<and>
   requests (run [Advance 5000, Fire 0, Fire 1] mounted_world) = [GetIngestStatus, GetIngestStatus] \<and>
   telemetry_pulls (run [Advance 5000, Fire 0, Fire 1] mounted_world) = telemetry_pulls mounted_world \<and>
   next_timer mounted_world = 1 \<and>
   telemetry_handle running_world = Some 1 \<and>
   is_running (status running_world) \<and>
   timers running_world =
     [\<lparr>timer_id = 0, callback = StatusPoll, delay = 1000, due = 1000\<rparr>,
      \<lparr>timer_id = 1, callback = TelemetryPull 0, delay = 800, due = 800\<rparr>] \<and>
   \<not> is_running (status (step (StatusResponse (Response True (Inr idle_status))) running_world)) \<and>
   telemetry_handle (step (StatusResponse (Response True (Inr idle_status))) running_world) = None \<and>
   1 \<notin> timer_id ` set (timers (step (StatusResponse (Response True (Inr idle_status))) running_world)) \<and>
   telemetry_handle paused_world = None \<and>
   clock paused_world = 4000 \<and>
   next_timer paused_world = 2 \<and>
   showInspector (step (StatusResponse (Response True (Inr running_status))) paused_world) \<and>
   is_running (status (step (StatusResponse (Response True (Inr running_status))) paused_world)) \<and>
   telemetry_handle (step (StatusResponse (Response True (Inr running_status))) paused_world) =
     Some 2 \<and>
   timers (step (StatusResponse (Response True (Inr running_status))) paused_world) =
     [\<lparr>timer_id = 0, callback = StatusPoll, delay = 1000, due = 1000\<rparr>,
      \<lparr>timer_id = 2, callback = TelemetryPull 0, delay = 800, due = 4800\<rparr>] \<and>
   \<not> showInspector (step (StatusResponse (Response True (Inr running_status))) hidden_world) \<and>
   is_running (status (step (StatusResponse (Response True (Inr running_status))) hidden_world)) \<and>
   telemetry_handle (step (StatusResponse (Response True (Inr running_status))) hidden_world) =
     None \<and>
   telemetry_timers (step (StatusResponse (Response True (Inr running_status))) hidden_world) = []"
proof -
  let ?evs = "[Advance 5000, Fire 0, Fire 1] :: nat event list"
  let ?up = "StatusResponse (Response True (Inr running_status)) :: nat event"
  let ?down = "StatusResponse (Response True (Inr idle_status)) :: nat event"
  have m: "mounted_world = run [] (mountIngestView (Some ''kb''))"
    by (simp add: mounted_world_def)
  have r: "running_world = run [?up] (mountIngestView (Some ''kb''))"
    by (simp add: running_world_def mounted_world_def)
  have ru: "running_world = step ?up mounted_world"
    by (simp add: running_world_def)
  have pw: "paused_world = run [?up, Advance 4000, ?down] (mountIngestView (Some ''kb''))"
    by (simp add: paused_world_def running_world_def mounted_world_def)
  have hw: "step ?up hidden_world = run [ClickInspector, ?up] (mountIngestView (Some ''kb''))"
    by (simp add: hidden_world_def mounted_world_def)
  have a: "\<not> is_running (status mounted_world)" "telemetry_handle mounted_world = None"
    "next_timer mounted_world = 1"
    by code_simp+
  have q0: "\<not> is_running (status (run (take 0 ?evs) mounted_world))" by code_simp
  have q1: "\<not> is_running (status (run (take 1 ?evs) mounted_world))" by code_simp
  have q2: "\<not> is_running (status (run (take 2 ?evs) mounted_world))" by code_simp
  have q: "\<forall>n < length ?evs. \<not> is_running (status (run (take n ?evs) mounted_world))"
  proof (intro allI impI)
    fix n assume "n < length ?evs"
    then have "n = 0 \<or> n = 1 \<or> n = 2" by auto
    then show "\<not> is_running (status (run (take n ?evs) mounted_world))"
      using q0 q1 q2 by blast
  qed
  have rq: "requests (run ?evs mounted_world) = [GetIngestStatus, GetIngestStatus]" by code_simp
  have b: "telemetry_handle running_world = Some 1" "is_running (status running_world)"
    "\<not> is_running (status (step ?down running_world))"
    by code_simp+
  have c: "telemetry_handle paused_world = None" "clock paused_world = 4000"
    "next_timer paused_world = 2" "showInspector (step ?up paused_world)"
    "is_running (status (step ?up paused_world))"
    by code_simp+
  have h: "\<not> showInspector (step ?up hidden_world)" "is_running (status (step ?up hidden_world))"
    by code_simp+
  note g1 = telemetry_gate[OF m, of ?evs 0 ?up 1]
  note g2 = telemetry_gate[OF r, of "[]" 1 ?down 0]
  note g3 = telemetry_gate[OF pw, of "[]" 0 ?up 2]
  note g4 = telemetry_gate[OF hw, of "[]" 0 ?up 0]
  have t: "telemetry_timers mounted_world = []" using g1 a(1) by blast
  have p: "telemetry_pulls (run ?evs mounted_world) = telemetry_pulls mounted_world"
    using g1 q by blast
  have "\<exists>k. timers (step ?up mounted_world) =
      timers (handle ?up mounted_world) @
        [\<lparr>timer_id = 1, callback = TelemetryPull k, delay = 800,
          due = clock (step ?up mounted_world) + 800\<rparr>]"
    using g1 a(2) b(1) unfolding ru by blast
  moreover have "timers running_world =
     [\<lparr>timer_id = 0, callback = StatusPoll, delay = 1000, due = 1000\<rparr>,
      \<lparr>timer_id = 1, callback = TelemetryPull 0, delay = 800, due = 800\<rparr>]"
    by code_simp
  ultimately have tm: "timers running_world =
     [\<lparr>timer_id = 0, callback = StatusPoll, delay = 1000, due = 1000\<rparr>,
      \<lparr>timer_id = 1, callback = TelemetryPull 0, delay = 800, due = 800\<rparr>]"
    by blast
  have d: "telemetry_handle (step ?down running_world) = None \<and>
           1 \<notin> timer_id ` set (timers (step ?down running_world))"
    using g2 b(1,3) by blast
  have "telemetry_handle (step ?up paused_world) = Some (next_timer paused_world)"
    using g3 c(1,4,5) by blast
  then have re: "telemetry_handle (step ?up paused_world) = Some 2" by (simp only: c(3))
  have rt: "timers (step ?up paused_world) =
     [\<lparr>timer_id = 0, callback = StatusPoll, delay = 1000, due = 1000\<rparr>,
      \<lparr>timer_id = 2, callback = TelemetryPull 0, delay = 800, due = 4800\<rparr>]"
    by code_simp
  have hd: "telemetry_handle (step ?up hidden_world) = None \<and>
            telemetry_timers (step ?up hidden_world) = []"
    using g4 h(1) by blast
  show ?thesis using a q0 q1 q2 rq t p b tm d c re rt h hd by blast
qed

text \<open>
  Claim C10. In every state the view can reach, let an event start a telemetry puller
  where none ran (the status poll reports a running job, or the stream is mounted while
  one runs). The event itself sends no telemetry pull, and whatever happens next, no
  telemetry pull is sent before the clock has advanced 800 ms past the event. The status
  poller is different: mounting the view sends its first pull at once.
\<close>

theorem telemetry_first_pull_after_period:
  assumes "w = run evs (mountIngestView db)"
    and "telemetry_handle w = None" and "telemetry_handle (step e w) = Some j"
  shows "telemetry_pulls (step e w) = telemetry_pulls w \<and>
         (\<forall>evs'. clock (run evs' (step e w)) < clock (step e w) + 800 \<longrightarrow>
                 telemetry_pulls (run evs' (step e w)) = telemetry_pulls w) \<and>
         requests (mountIngestView db :: 'f world) = [GetIngestStatus]"
proof -
  have i: "stable w" unfolding assms(1) using stable_mount by (rule stable_run)
  note q = activation_quiet[OF i assms(2,3)]
  have "telemetry_pulls (run evs' (step e w)) = telemetry_pulls w"
    if "clock (run evs' (step e w)) < clock (step e w) + 800" for evs'
    using quiet_run[OF stable_step[OF i] q(2) _ that] q(1) by simp
  then show ?thesis using q(1) by (simp add: mountIngestView_eq)
qed

text \<open>
  The status poll reports a running job to a mounted view at time 0. Firing the new timer
  after 799 ms sends nothing; firing it after 800 ms sends the first telemetry pull.
\<close>

theorem telemetry_first_pull_after_period_witness:
  "telemetry_handle mounted_world = None \<and>
   telemetry_handle (step (StatusResponse (Response True (Inr running_status))) mounted_world) =
     Some 1 \<and>
   telemetry_pulls mounted_world = 0 \<and>
   telemetry_pulls (step (StatusResponse (Response True (Inr running_status))) mounted_world) = 0 \<and>
   clock (step (StatusResponse (Response True (Inr running_status))) mounted_world) = 0 \<and>
   clock (run [Advance 799, Fire 1]
            (step (StatusResponse (Response True (Inr running_status))) mounted_world)) = 799 \<and>
   telemetry_pulls (run [Advance 799, Fire 1]
            (step (StatusResponse (Response True (Inr running_status))) mounted_world)) = 0 \<and>
   telemetry_pulls (run [Advance 800, Fire 1]
            (step (StatusResponse (Response True (Inr running_status))) mounted_world)) = 1 \<and>
   requests mounted_world = [GetIngestStatus]"
proof -
  let ?up = "StatusResponse (Response True (Inr running_status)) :: nat event"
  let ?evs = "[Advance 799, Fire 1] :: nat event list"
  have m: "mounted_world = run [] (mountIngestView (Some ''kb''))"
    by (simp add: mounted_world_def)
  have a: "telemetry_handle mounted_world = None" "telemetry_handle (step ?up mounted_world) = Some 1"
    "telemetry_pulls mounted_world = 0" "clock (step ?up mounted_world) = 0"
    "clock (run ?evs (step ?up mounted_world)) = 799"
    "telemetry_pulls (run [Advance 800, Fire 1] (step ?up mounted_world)) = 1"
    by code_simp+
  note f = telemetry_first_pull_after_period[OF m a(1,2)]
  have "telemetry_pulls (step ?up mounted_world) = telemetry_pulls mounted_world"
    using f by blast
  then have p0: "telemetry_pulls (step ?up mounted_world) = 0" by (simp only: a(3))
  have lt: "clock (run ?evs (step ?up mounted_world)) < clock (step ?up mounted_world) + 800"
    by (simp only: a(4,5))
  have "telemetry_pulls (run ?evs (step ?up mounted_world)) = telemetry_pulls mounted_world"
    using f lt by blast
  then have p1: "telemetry_pulls (run ?evs (step ?up mounted_world)) = 0" by (simp only: a(3))
  have "requests (mountIngestView (Some ''kb'') :: nat world) = [GetIngestStatus]"
    using f by blast
  then have rq: "requests mounted_world = [GetIngestStatus]"
    by (simp only: mounted_world_def)
  show ?thesis using a p0 p1 rq by blast
qed

section \<open>Properties of the job start\<close>

text \<open>
  Claim C5, as the code has it. One call of \<^verbatim>\<open>handleStartIngest\<close>, whatever the server
  would answer:
  \<^item> with no knowledge base (\<^verbatim>\<open>null\<close> or the empty string) no request is sent and no
    client state changes; the user is told at once by the alert "Please select a
    Knowledge Base first!";
  \<^item> with a knowledge base and an empty selection (no tree, or a tree with no checked
    file) no request is sent, no client state changes, and nothing is reported: the
    handler returns silently, and the state after the call is the state before it;
  \<^item> in both cases the start button is disabled, so a click does nothing.
  The handler returns no value in any case.
\<close>

theorem handleStartIngest_validation:
  "((activeDB w = None \<or> activeDB w = Some []) \<longrightarrow>
      handleStartIngest r w =
        w\<lparr>alerts := alerts w @ [''Please select a Knowledge Base first!'']\<rparr>) \<and>
   (activeDB w = Some db \<and> db \<noteq> [] \<and> selectedFilesCount w = 0 \<longrightarrow>
      handleStartIngest r w = w) \<and>
   (activeDB w = None \<or> activeDB w = Some [] \<or> selectedFilesCount w = 0 \<longrightarrow>
      isStartDisabled w \<and> handle ClickStart w = w)"
proof (intro conjI impI)
  assume "activeDB w = None \<or> activeDB w = Some []"
  then show "handleStartIngest r w =
        w\<lparr>alerts := alerts w @ [''Please select a Knowledge Base first!'']\<rparr>"
    by (auto simp: handleStartIngest_def handleStartIngest_begin_def alert_def)
next
  assume "activeDB w = Some db \<and> db \<noteq> [] \<and> selectedFilesCount w = 0"
  then show "handleStartIngest r w = w"
    by (auto simp: handleStartIngest_def handleStartIngest_begin_def selectedFilesCount_def
        Let_def split: option.splits)
next
  assume a: "activeDB w = None \<or> activeDB w = Some [] \<or> selectedFilesCount w = 0"
  then show "isStartDisabled w"
    by (auto simp: isStartDisabled_def)
  then show "handle ClickStart w = w" by simp
qed

text \<open>
  With the knowledge base \<^verbatim>\<open>kb\<close> and the scenario tree unchecked from the root, the call
  changes nothing. In a view mounted without a knowledge base, the call raises the alert
  and sends nothing: the only request is the status pull of the mount.
\<close>

theorem handleStartIngest_validation_witness:
  "activeDB deselected_world = Some ''kb'' \<and>
   selectedFilesCount deselected_world = 0 \<and>
   handleStartIngest (Response True (Inr None)) deselected_world = deselected_world \<and>
   isStartDisabled deselected_world \<and>
   activeDB (mountIngestView None :: nat world) = None \<and>
   handleStartIngest (Response True (Inr None)) (mountIngestView None :: nat world) =
     (mountIngestView None)\<lparr>alerts := [''Please select a Knowledge Base first!'']\<rparr> \<and>
   requests (handleStartIngest (Response True (Inr None)) (mountIngestView None :: nat world)) =
     [GetIngestStatus]"
proof -
  let ?r = "Response True (Inr None) :: string option http_response"
  let ?u = "mountIngestView None :: nat world"
  have a: "activeDB deselected_world = Some ''kb''" "selectedFilesCount deselected_world = 0"
    "activeDB ?u = None" "alerts ?u = []" "requests ?u = [GetIngestStatus]"
    by code_simp+
  note v1 = handleStartIngest_validation[of deselected_world ?r "''kb''"]
  note v2 = handleStartIngest_validation[of ?u ?r "''kb''"]
  have 1: "handleStartIngest ?r deselected_world = deselected_world"
    using v1 a(1,2) by simp
  have 2: "isStartDisabled deselected_world" using v1 a(2) by blast
  have "handleStartIngest ?r ?u =
      ?u\<lparr>alerts := alerts ?u @ [''Please select a Knowledge Base first!'']\<rparr>"
    using v2 a(3) by blast
  then have 3: "handleStartIngest ?r ?u =
      ?u\<lparr>alerts := [''Please select a Knowledge Base first!'']\<rparr>"
    by (simp only: a(4) append_Nil)
  have 4: "requests (?u\<lparr>alerts := [''Please select a Knowledge Base first!'']\<rparr>) =
      [GetIngestStatus]"
    by (simp add: a(5))
  show ?thesis unfolding 3 4 using a(1,2,3) 1 2 by blast
qed

text \<open>
  Against the claim as stated: with the knowledge base \<^verbatim>\<open>kb\<close> and an empty selection,
  the call reports nothing to the user. No alert is raised, the console stays empty, and
  the state after the call is the state before it.
\<close>

theorem handleStartIngest_empty_selection_counterexample:
  "activeDB deselected_world = Some ''kb'' \<and>
   map_option extractCheckedFiles (tree deselected_world) = Some [] \<and>
   alerts (handleStartIngest (Response True (Inr None)) deselected_world) = [] \<and>
   console (handleStartIngest (Response True (Inr None)) deselected_world) = [] \<and>
   requests (handleStartIngest (Response True (Inr None)) deselected_world) =
     requests deselected_world"
  by code_simp

text \<open>
  Claim C6, as the code has it. In every state the view can reach, when the round trip
  of a submitted job start ends:
  \<^item> on success the inspector pane that hosts the telemetry stream is shown at once, but
    the puller stays behind the polled status flag: the handler leaves the held snapshot
    as it is and sends nothing, and after it a telemetry puller runs exactly if the held
    snapshot says \<open>is_running\<close>;
  \<^item> on failure the user is told by the alert "Ingest Error: " followed by the error's
    message, and nothing else changes: status snapshot, frame buffer and both timers are
    as before.
\<close>

theorem startJob_outcome:
  assumes "w = run evs (mountIngestView db)"
  shows "(executeIngest r = Inr () \<longrightarrow>
            showInspector (step (IngestResponse r) w) \<and>
            status (step (IngestResponse r) w) = status w \<and>
            requests (step (IngestResponse r) w) = requests w \<and>
            (telemetry_handle (step (IngestResponse r) w) \<noteq> None) = is_running (status w)) \<and>
         (executeIngest r = Inl e \<longrightarrow>
            step (IngestResponse r) w = w\<lparr>alerts := alerts w @ [''Ingest Error: '' @ message e]\<rparr>)"
proof (intro conjI impI)
  have i: "stable w" unfolding assms using stable_mount by (rule stable_run)
  let ?w = "step (IngestResponse r) w"
  have i': "stable ?w" using i by (rule stable_step)
  {
    assume ok: "executeIngest r = Inr ()"
    show s: "showInspector ?w" using ok
      by (simp add: step_def commit_keeps handleStartIngest_done_def)
    show st: "status ?w = status w" using ok
      by (simp add: step_def commit_keeps handleStartIngest_done_def)
    show "requests ?w = requests w" using ok
      by (simp add: step_def commit_keeps handleStartIngest_done_def)
    obtain ts where ts: "thoughtStream ?w = Some ts" "isRunning_dep ts = is_running (status ?w)"
      using i' s by (cases "thoughtStream ?w") (auto simp: stable_def synced_def)
    have "(interval ts = None) = (\<not> isRunning_dep ts)"
      using i' ts(1) by (intro coherent_interval_dep) (simp_all add: stable_def)
    then show "(telemetry_handle ?w \<noteq> None) = is_running (status w)"
      using ts st by (simp add: telemetry_handle_def)
  }
  {
    assume bad: "executeIngest r = Inl e"
    have "synced (w\<lparr>alerts := alerts w @ [''Ingest Error: '' @ message e]\<rparr>)"
      using i by (simp add: stable_def synced_def)
    then show "?w = w\<lparr>alerts := alerts w @ [''Ingest Error: '' @ message e]\<rparr>"
      using bad by (simp add: step_def handleStartIngest_done_def alert_def commit_synced_id)
  }
qed

text \<open>
  A job start for the scenario tree is submitted while the held snapshot is idle. When
  the server accepts it the pane is shown and no puller runs; when the server rejects it
  with the detail "KB is locked" only the alert is added.
\<close>

theorem startJob_outcome_witness:
  "\<not> is_running (status submitted_world) \<and>
   executeIngest (Response True (Inr None)) = Inr () \<and>
   showInspector (step (IngestResponse (Response True (Inr None))) submitted_world) \<and>
   telemetry_handle (step (IngestResponse (Response True (Inr None))) submitted_world) = None \<and>
   executeIngest (Response False (Inr (Some ''KB is locked''))) =
     Inl (JsError ''Error'' ''KB is locked'') \<and>
   step (IngestResponse (Response False (Inr (Some ''KB is locked'')))) submitted_world =
     submitted_world\<lparr>alerts := [''Ingest Error: KB is locked'']\<rparr>"
proof -
  let ?ok = "Response True (Inr None) :: string option http_response"
  let ?bad = "Response False (Inr (Some ''KB is locked'')) :: string option http_response"
  have w: "submitted_world =
      run [ClickScan, ScanResponse (Response True (Inr (Some scenario_tree))), ClickStart]
        (mountIngestView (Some ''kb''))"
    by (simp add: submitted_world_def scanned_world_def mounted_world_def)
  have a: "\<not> is_running (status submitted_world)" "alerts submitted_world = []"
    by code_simp+
  have o: "executeIngest ?ok = Inr ()" by (simp add: executeIngest_def)
  have b: "executeIngest ?bad = Inl (JsError ''Error'' ''KB is locked'')"
    by (simp add: executeIngest_def)
  note s1 = startJob_outcome[OF w, of ?ok]
  note s2 = startJob_outcome[OF w, of ?bad "JsError ''Error'' ''KB is locked''"]
  have 1: "showInspector (step (IngestResponse ?ok) submitted_world)" using s1 o by blast
  have "(telemetry_handle (step (IngestResponse ?ok) submitted_world) \<noteq> None) =
      is_running (status submitted_world)"
    using s1 o by blast
  then have 2: "telemetry_handle (step (IngestResponse ?ok) submitted_world) = None"
    using a(1) by simp
  have "step (IngestResponse ?bad) submitted_world =
      submitted_world\<lparr>alerts := alerts submitted_world @
        [''Ingest Error: '' @ message (JsError ''Error'' ''KB is locked'')]\<rparr>"
    using s2 b by blast
  then have 3: "step (IngestResponse ?bad) submitted_world =
      submitted_world\<lparr>alerts := [''Ingest Error: KB is locked'']\<rparr>"
    by (simp add: a(2))
  show ?thesis using a(1) o b 1 2 3 by blast
qed

text \<open>
  Against the claim as stated: the job start for the scenario tree is submitted and
  accepted while the held snapshot is idle. The request went out and no alert was raised,
  the pane is shown, yet no telemetry puller runs and no telemetry timer is registered;
  five seconds later, with every timer handle fired, still no telemetry pull was sent.
\<close>

theorem startJob_success_telemetry_idle_counterexample:
  "requests started_world =
     [GetIngestStatus, PostScan (utf16 ''.''),
      PostIngestExecute ''kb'' (utf16 ''.'') [''a.py'', ''subdir/b.py''] ''none''] \<and>
   alerts started_world = [] \<and>
   showInspector started_world \<and>
   \<not> is_running (status started_world) \<and>
   telemetry_handle started_world = None \<and>
   telemetry_timers started_world = [] \<and>
   telemetry_pulls (run [Advance 5000, Fire 0, Fire 1, Fire 2] started_world) = 0"
  by code_simp

end
